theory Spec2Isabelle
  imports Main
begin

section \<open>Python strings\<close>

text \<open>
  A Python \<open>str\<close> is a sequence of Unicode code points, so a string is a list of
  natural numbers and \<open>length\<close> counts code points, as \<open>len\<close> does.
\<close>

type_synonym codepoint = nat
type_synonym pystr = "codepoint list"

definition TAB :: codepoint where "TAB = 9"
definition LF :: codepoint where "LF = 10"
definition CR :: codepoint where "CR = 13"
definition SPACE :: codepoint where "SPACE = 32"
definition DQUOTE :: codepoint where "DQUOTE = 34"
definition COMMA :: codepoint where "COMMA = 44"
definition SEMICOLON :: codepoint where "SEMICOLON = 59"
definition PIPE :: codepoint where "PIPE = 124"

text \<open>
  \<open>str.isspace\<close> on one character; the same class is what \<open>str.strip()\<close> removes
  and what \<open>\s\<close> matches in a \<open>str\<close> pattern of \<open>re\<close>.
\<close>

definition isspace :: "codepoint \<Rightarrow> bool" where
  "isspace c \<longleftrightarrow> c \<in> set [9, 10, 11, 12, 13, 28, 29, 30, 31, 32, 133, 160, 5760,
     8192, 8193, 8194, 8195, 8196, 8197, 8198, 8199, 8200, 8201, 8202,
     8232, 8233, 8239, 8287, 12288]"

text \<open>The line boundaries of \<open>str.splitlines\<close>.\<close>

definition is_linebreak :: "codepoint \<Rightarrow> bool" where
  "is_linebreak c \<longleftrightarrow> c \<in> set [10, 11, 12, 13, 28, 29, 30, 133, 8232, 8233]"

text \<open>\<open>s.strip()\<close>: leading and trailing whitespace removed.\<close>

definition strip :: "pystr \<Rightarrow> pystr" where
  "strip s = rev (dropWhile isspace (rev (dropWhile isspace s)))"

text \<open>
  \<open>s.splitlines()\<close>: the scan of CPython's \<open>splitlines\<close>. \<open>cur\<close> is the line read
  so far; a line break closes it, \<open>\r\n\<close> counting as one break; what follows the last
  break is a line only when it is not empty.
\<close>

fun splitlines_from :: "pystr \<Rightarrow> pystr \<Rightarrow> pystr list" where
  "splitlines_from cur [] = (if cur = [] then [] else [cur])"
| "splitlines_from cur [c] =
     (if is_linebreak c then [cur] else [cur @ [c]])"
| "splitlines_from cur (c # n # cs) =
     (if is_linebreak c then
        (if c = CR \<and> n = LF then cur # splitlines_from [] cs
         else cur # splitlines_from [] (n # cs))
      else splitlines_from (cur @ [c]) (n # cs))"

definition splitlines :: "pystr \<Rightarrow> pystr list" where
  "splitlines s = splitlines_from [] s"

text \<open>\<open>s.split(sep)\<close> for a one-character separator.\<close>

fun split_from :: "codepoint \<Rightarrow> pystr \<Rightarrow> pystr \<Rightarrow> pystr list" where
  "split_from sep cur [] = [cur]"
| "split_from sep cur (c # cs) =
     (if c = sep then cur # split_from sep [] cs else split_from sep (cur @ [c]) cs)"

definition split :: "codepoint \<Rightarrow> pystr \<Rightarrow> pystr list" where
  "split sep s = split_from sep [] s"

text \<open>\<open>sep.join(xs)\<close>.\<close>

fun join :: "pystr \<Rightarrow> pystr list \<Rightarrow> pystr" where
  "join sep [] = []"
| "join sep [x] = x"
| "join sep (x # y # ys) = x @ sep @ join sep (y # ys)"

text \<open>
  \<open>re.split(r"\s{2,}", s)\<close>: the leftmost run of two or more whitespace characters is
  matched greedily, so the whole run is the separator; a single whitespace character
  stays in the cell.
\<close>

function re_split_from :: "pystr \<Rightarrow> pystr \<Rightarrow> pystr list" where
  "re_split_from cur [] = [cur]"
| "re_split_from cur [c] = [cur @ [c]]"
| "re_split_from cur (c # n # cs) =
     (if isspace c \<and> isspace n then cur # re_split_from [] (dropWhile isspace cs)
      else re_split_from (cur @ [c]) (n # cs))"
  by pat_completeness auto
termination
  by (relation "measure (\<lambda>(cur, s). length s)")
     (auto simp: less_Suc_eq_le intro: le_trans [OF length_dropWhile_le])

definition re_split :: "pystr \<Rightarrow> pystr list" where
  "re_split s = re_split_from [] s"

section \<open>The detector\<close>

definition CANDIDATE_DELIMS :: "pystr list" where
  "CANDIDATE_DELIMS = [[COMMA], [SEMICOLON], [PIPE]]"

text \<open>
  \<open>lines = [ln for ln in text.splitlines() if ln.strip()]\<close> of the stripped text, and
  \<open>sample = "\n".join(lines[:20])\<close>.
\<close>

definition retained_lines :: "pystr \<Rightarrow> pystr list" where
  "retained_lines text = filter (\<lambda>ln. strip ln \<noteq> []) (splitlines (strip text))"

definition sample_of :: "pystr list \<Rightarrow> pystr" where
  "sample_of lines = join [LF] (take 20 lines)"

definition tab_rows :: "pystr list \<Rightarrow> pystr list list" where
  "tab_rows lines = map (split TAB) lines"


subsection \<open>The delimited-text reader\<close>

text \<open>
  The errors of the \<open>csv\<close> module that the detector can meet: the sniffer finding no
  delimiter, and the reader refusing a field or a line.
\<close>

datatype csv_error = Could_Not_Determine_Delimiter | Field_Larger_Than_Limit | Newline_In_Unquoted_Field

text \<open>
  The dialect class built by \<open>csv.Sniffer.sniff\<close> sets these four attributes; its
  \<open>escapechar\<close> is \<open>None\<close>, its \<open>quoting\<close> is \<open>QUOTE_MINIMAL\<close> and it is not strict.
\<close>

record dialect =
  delimiter :: codepoint
  quotechar :: codepoint
  doublequote :: bool
  skipinitialspace :: bool

text \<open>
  The sniffer is the library's heuristic and is a parameter of the detector:
  \<open>sniff sample delimiters\<close> stands for \<open>csv.Sniffer().sniff(sample, delimiters)\<close>, with
  \<open>Inl\<close> for the exception it raises.
\<close>

type_synonym sniffer = "pystr \<Rightarrow> pystr \<Rightarrow> csv_error + dialect"

text \<open>
  The reader is the state machine of CPython's \<open>_csv\<close> module, for a dialect without escape
  character. A line is fed character by character and closed by the end-of-line signal
  (\<open>None\<close> below); the states for escaped characters are never entered.
\<close>

datatype parser_state =
  START_RECORD | START_FIELD | IN_FIELD | IN_QUOTED_FIELD | QUOTE_IN_QUOTED_FIELD | EAT_CRNL

record reader =
  state :: parser_state
  rfields :: "pystr list"
  field :: pystr

definition field_limit :: nat where
  "field_limit = 131072"

definition parse_reset :: reader where
  "parse_reset = \<lparr>state = START_RECORD, rfields = [], field = []\<rparr>"

definition parse_save_field :: "reader \<Rightarrow> reader" where
  "parse_save_field r = r\<lparr>rfields := rfields r @ [field r], field := []\<rparr>"

definition parse_add_char :: "reader \<Rightarrow> codepoint \<Rightarrow> csv_error + reader" where
  "parse_add_char r c =
     (if length (field r) \<ge> field_limit then Inl Field_Larger_Than_Limit
      else Inr (r\<lparr>field := field r @ [c]\<rparr>))"

definition set_state :: "parser_state \<Rightarrow> csv_error + reader \<Rightarrow> csv_error + reader" where
  "set_state s x = (case x of Inl e \<Rightarrow> Inl e | Inr r \<Rightarrow> Inr (r\<lparr>state := s\<rparr>))"

definition is_newline :: "codepoint option \<Rightarrow> bool" where
  "is_newline c \<longleftrightarrow> c = Some LF \<or> c = Some CR"

definition after_eol :: "codepoint option \<Rightarrow> parser_state" where
  "after_eol c = (if c = None then START_RECORD else EAT_CRNL)"

definition start_field :: "dialect \<Rightarrow> reader \<Rightarrow> codepoint option \<Rightarrow> csv_error + reader" where
  "start_field d r c =
     (if is_newline c \<or> c = None then Inr ((parse_save_field r)\<lparr>state := after_eol c\<rparr>)
      else if c = Some (quotechar d) then Inr (r\<lparr>state := IN_QUOTED_FIELD\<rparr>)
      else if c = Some SPACE \<and> skipinitialspace d then Inr r
      else if c = Some (delimiter d) then Inr (parse_save_field r)
      else set_state IN_FIELD (parse_add_char r (the c)))"

definition parse_process_char :: "dialect \<Rightarrow> reader \<Rightarrow> codepoint option \<Rightarrow> csv_error + reader" where
  "parse_process_char d r c =
     (case state r of
        START_RECORD \<Rightarrow>
          (if c = None then Inr r
           else if is_newline c then Inr (r\<lparr>state := EAT_CRNL\<rparr>)
           else start_field d (r\<lparr>state := START_FIELD\<rparr>) c)
      | START_FIELD \<Rightarrow> start_field d r c
      | IN_FIELD \<Rightarrow>
          (if is_newline c \<or> c = None then Inr ((parse_save_field r)\<lparr>state := after_eol c\<rparr>)
           else if c = Some (delimiter d) then Inr ((parse_save_field r)\<lparr>state := START_FIELD\<rparr>)
           else parse_add_char r (the c))
      | IN_QUOTED_FIELD \<Rightarrow>
          (if c = None then Inr r
           else if c = Some (quotechar d) then
             (if doublequote d then Inr (r\<lparr>state := QUOTE_IN_QUOTED_FIELD\<rparr>)
              else Inr (r\<lparr>state := IN_FIELD\<rparr>))
           else parse_add_char r (the c))
      | QUOTE_IN_QUOTED_FIELD \<Rightarrow>
          (if c = Some (quotechar d) then set_state IN_QUOTED_FIELD (parse_add_char r (the c))
           else if c = Some (delimiter d) then Inr ((parse_save_field r)\<lparr>state := START_FIELD\<rparr>)
           else if is_newline c \<or> c = None then Inr ((parse_save_field r)\<lparr>state := after_eol c\<rparr>)
           else set_state IN_FIELD (parse_add_char r (the c)))
      | EAT_CRNL \<Rightarrow>
          (if is_newline c then Inr r
           else if c = None then Inr (r\<lparr>state := START_RECORD\<rparr>)
           else Inl Newline_In_Unquoted_Field))"

text \<open>One line: its characters, then the end-of-line signal.\<close>

fun process_line :: "dialect \<Rightarrow> reader \<Rightarrow> pystr \<Rightarrow> csv_error + reader" where
  "process_line d r [] = parse_process_char d r None"
| "process_line d r (c # cs) =
     (case parse_process_char d r (Some c) of
        Inl e \<Rightarrow> Inl e
      | Inr r' \<Rightarrow> process_line d r' cs)"

text \<open>
  \<open>[row for row in csv.reader(lines, dialect)]\<close>. A record takes lines until the machine is
  back in \<open>START_RECORD\<close>, and the next record starts from a reset machine. When the lines
  run out inside a record (an open quoted field), the unfinished record is returned; when
  they run out between records the iteration stops.
\<close>

fun read_rows :: "dialect \<Rightarrow> reader \<Rightarrow> pystr list \<Rightarrow> csv_error + pystr list list" where
  "read_rows d r [] =
     (if field r \<noteq> [] \<or> state r = IN_QUOTED_FIELD then Inr [rfields (parse_save_field r)]
      else Inr [])"
| "read_rows d r (ln # lns) =
     (case process_line d r ln of
        Inl e \<Rightarrow> Inl e
      | Inr r' \<Rightarrow>
          if state r' = START_RECORD then
            (case read_rows d parse_reset lns of
               Inl e \<Rightarrow> Inl e
             | Inr rows \<Rightarrow> Inr (rfields r' # rows))
          else read_rows d r' lns)"

definition csv_reader :: "dialect \<Rightarrow> pystr list \<Rightarrow> csv_error + pystr list list" where
  "csv_reader d lines = read_rows d parse_reset lines"

subsection \<open>The cascade\<close>

text \<open>The body of the \<open>try\<close> block: sniff the sample, then read every retained line.\<close>

definition sniffed_rows :: "sniffer \<Rightarrow> pystr list \<Rightarrow> csv_error + pystr list list" where
  "sniffed_rows sniff lines =
     (case sniff (sample_of lines) (concat CANDIDATE_DELIMS) of
        Inl e \<Rightarrow> Inl e
      | Inr d \<Rightarrow> csv_reader d lines)"

text \<open>The fallback: \<open>[cell.strip() for cell in re.split(r"\s{2,}", ln.strip())]\<close> per line.\<close>

definition aligned_row :: "pystr \<Rightarrow> pystr list" where
  "aligned_row ln = map strip (re_split (strip ln))"

definition aligned_rows :: "pystr list \<Rightarrow> pystr list list" where
  "aligned_rows lines = map aligned_row lines"

definition parse_text_to_rows :: "sniffer \<Rightarrow> pystr \<Rightarrow> pystr list list" where
  "parse_text_to_rows sniff text =
     (let lines = retained_lines text in
      if lines = [] then []
      else if TAB \<in> set (sample_of lines) then tab_rows lines
      else case sniffed_rows sniff lines of
             Inr rows \<Rightarrow> rows
           | Inl e \<Rightarrow> aligned_rows lines)"


section \<open>The serializer\<close>

text \<open>
  \<open>csv.writer(f, delimiter=sep, quoting=csv.QUOTE_MINIMAL)\<close> is the \<open>excel\<close> dialect with
  another delimiter: quote character \<open>"\<close>, doubled inside a field, no escape character,
  line terminator \<open>\r\n\<close>. The writer keeps the record being built and the number of
  fields joined so far.
\<close>

record writer =
  rec :: pystr
  num_fields :: nat

definition join_reset :: writer where
  "join_reset = \<lparr>rec = [], num_fields = 0\<rparr>"

text \<open>
  A character that forces quotes: the delimiter, the quote character, or a character of
  the line terminator.
\<close>

definition forces_quotes :: "codepoint \<Rightarrow> codepoint \<Rightarrow> bool" where
  "forces_quotes sep c \<longleftrightarrow> c = sep \<or> c = DQUOTE \<or> c \<in> set [CR, LF]"

text \<open>The copy loop of a field: every quote character is written twice.\<close>

fun join_append_data :: "pystr \<Rightarrow> pystr" where
  "join_append_data [] = []"
| "join_append_data (c # cs) =
     (if c = DQUOTE then DQUOTE # c # join_append_data cs else c # join_append_data cs)"

definition join_append :: "codepoint \<Rightarrow> writer \<Rightarrow> pystr \<Rightarrow> bool \<Rightarrow> writer" where
  "join_append sep w fld quoted0 =
     (let quoted = (quoted0 \<or> list_ex (forces_quotes sep) fld);
          body = join_append_data fld
      in \<lparr>rec = rec w @ (if num_fields w > 0 then [sep] else [])
                 @ (if quoted then [DQUOTE] @ body @ [DQUOTE] else body),
          num_fields = num_fields w + 1\<rparr>)"

text \<open>
  \<open>writerow\<close>: the fields are joined in order; a record of one empty field is written
  again with quotes; the line terminator ends the record.
\<close>

definition writerow :: "codepoint \<Rightarrow> pystr list \<Rightarrow> pystr" where
  "writerow sep row =
     (let w = foldl (\<lambda>w fld. join_append sep w fld False) join_reset row;
          w' = (if num_fields w > 0 \<and> rec w = []
                then join_append sep (w\<lparr>num_fields := num_fields w - 1\<rparr>) [] True
                else w)
      in rec w' @ [CR, LF])"

datatype write_error = Type_Error | Unicode_Encode_Error

text \<open>
  The text that the loop \<open>for r in rows: w.writerow(r)\<close> hands to the file; building the
  writer raises \<open>TypeError\<close> unless \<open>sep\<close> is one character.
\<close>

definition written_text :: "pystr list list \<Rightarrow> pystr \<Rightarrow> write_error + pystr" where
  "written_text rows sep =
     (case sep of
        [c] \<Rightarrow> Inr (concat (map (writerow c) rows))
      | _ \<Rightarrow> Inl Type_Error)"

text \<open>
  The file is opened with \<open>encoding="utf-8"\<close> and \<open>newline=""\<close>: the text is encoded as it
  is, and a surrogate code point cannot be encoded. Bytes are numbers below 256.
\<close>

definition utf8_char :: "codepoint \<Rightarrow> write_error + nat list" where
  "utf8_char c =
     (if c < 128 then Inr [c]
      else if c < 2048 then Inr [192 + c div 64, 128 + c mod 64]
      else if 55296 \<le> c \<and> c < 57344 then Inl Unicode_Encode_Error
      else if c < 65536 then Inr [224 + c div 4096, 128 + (c div 64) mod 64, 128 + c mod 64]
      else Inr [240 + c div 262144, 128 + (c div 4096) mod 64, 128 + (c div 64) mod 64,
                128 + c mod 64])"

fun utf8_encode :: "pystr \<Rightarrow> write_error + nat list" where
  "utf8_encode [] = Inr []"
| "utf8_encode (c # cs) =
     (case utf8_char c of
        Inl e \<Rightarrow> Inl e
      | Inr bs \<Rightarrow> (case utf8_encode cs of Inl e \<Rightarrow> Inl e | Inr rest \<Rightarrow> Inr (bs @ rest)))"

text \<open>\<open>write_rows\<close>: the bytes in the output file, or the exception raised.\<close>

definition write_rows :: "pystr list list \<Rightarrow> pystr \<Rightarrow> write_error + nat list" where
  "write_rows rows sep =
     (case written_text rows sep of
        Inl e \<Rightarrow> Inl e
      | Inr text \<Rightarrow> utf8_encode text)"


section \<open>Notions used in the statements\<close>

text \<open>A string has a run when two adjacent characters of it are whitespace.\<close>

fun has_run :: "pystr \<Rightarrow> bool" where
  "has_run (c # n # cs) = ((isspace c \<and> isspace n) \<or> has_run (n # cs))"
| "has_run cs = False"

text \<open>
  \<open>interleave cells seps\<close> is the string in which the separators stand between the cells,
  in order.
\<close>

fun interleave :: "pystr list \<Rightarrow> pystr list \<Rightarrow> pystr" where
  "interleave [] seps = []"
| "interleave (x # xs) [] = x"
| "interleave (x # xs) (s # seps) = x @ s @ interleave xs seps"

text \<open>A trimmed string neither starts nor ends with whitespace.\<close>

definition trimmed :: "pystr \<Rightarrow> bool" where
  "trimmed s \<longleftrightarrow> (s \<noteq> [] \<longrightarrow> \<not> isspace (hd s) \<and> \<not> isspace (last s))"

text \<open>The surrogate code points, which UTF-8 does not encode.\<close>

definition is_surrogate :: "codepoint \<Rightarrow> bool" where
  "is_surrogate c \<longleftrightarrow> 55296 \<le> c \<and> c < 57344"

text \<open>
  The serializer in closed form, to be compared with the writer's loop. A cell that has a
  character forcing quotes is written between quotes with every quote character doubled;
  any other cell is written as it stands.
\<close>

definition spec_cell :: "codepoint \<Rightarrow> pystr \<Rightarrow> pystr" where
  "spec_cell sep cell =
     (if list_ex (forces_quotes sep) cell
      then [DQUOTE] @ concat (map (\<lambda>c. if c = DQUOTE then [DQUOTE, DQUOTE] else [c]) cell) @ [DQUOTE]
      else cell)"

text \<open>
  A row is its cells joined by the delimiter, except the row of one empty cell, which is
  two quote characters; the line terminator follows.
\<close>

definition spec_row :: "codepoint \<Rightarrow> pystr list \<Rightarrow> pystr" where
  "spec_row sep row =
     (if row = [[]] then [DQUOTE, DQUOTE] else join [sep] (map (spec_cell sep) row)) @ [CR, LF]"

text \<open>The text is the rows one after the other.\<close>

definition spec_text :: "codepoint \<Rightarrow> pystr list list \<Rightarrow> pystr" where
  "spec_text sep rows = concat (map (spec_row sep) rows)"

text \<open>
  The condition under which claim C7 lets a cell be quoted: it contains the delimiter, a
  quote character or a line-break character.
\<close>

definition claimed_may_quote :: "codepoint \<Rightarrow> pystr \<Rightarrow> bool" where
  "claimed_may_quote sep cell \<longleftrightarrow> list_ex (\<lambda>c. c = sep \<or> c = DQUOTE \<or> is_linebreak c) cell"

text \<open>
  The dialect that \<open>csv.Sniffer\<close> returns for the comma-separated samples of the examples
  below, and the sniffer that returns it.
\<close>

definition comma_dialect :: dialect where
  "comma_dialect = \<lparr>delimiter = COMMA, quotechar = DQUOTE, doublequote = False, skipinitialspace = False\<rparr>"

definition sniff_comma :: sniffer where
  "sniff_comma sample delims = Inr comma_dialect"

text \<open>The characters held by a reader, and the characters of a table.\<close>

definition reader_chars :: "reader \<Rightarrow> codepoint set" where
  "reader_chars r = set (field r) \<union> \<Union>(set ` set (rfields r))"

definition table_chars :: "pystr list list \<Rightarrow> codepoint set" where
  "table_chars rows = \<Union>(set ` \<Union>(set ` set rows))"

text \<open>
  What \<open>skipinitialspace\<close> does to an unquoted field: the spaces at its start are dropped.
\<close>

definition skip_spaces :: "dialect \<Rightarrow> pystr \<Rightarrow> pystr" where
  "skip_spaces d cell = (if skipinitialspace d then dropWhile (\<lambda>c. c = SPACE) cell else cell)"

text \<open>
  A plain cell for a delimiter and a dialect: it contains neither the delimiter, nor the
  writer's quote character, nor the dialect's quote character, nor a line-break
  character, and it neither starts nor ends with whitespace.
\<close>

definition plain_cell :: "codepoint \<Rightarrow> dialect \<Rightarrow> pystr \<Rightarrow> bool" where
  "plain_cell D d cell \<longleftrightarrow>
     D \<notin> set cell \<and> DQUOTE \<notin> set cell \<and> quotechar d \<notin> set cell
     \<and> list_all (\<lambda>c. \<not> is_linebreak c) cell \<and> trimmed cell"

text \<open>
  An input of eleven lines: ten times \<open>a,b;c\<close> and then \<open>a;c\<close>. On this sample
  \<open>csv.Sniffer\<close> returns the comma dialect.
\<close>

definition eleven_lines :: pystr where
  "eleven_lines =
     [97, 44, 98, 59, 99, 10,
      97, 44, 98, 59, 99, 10,
      97, 44, 98, 59, 99, 10,
      97, 44, 98, 59, 99, 10,
      97, 44, 98, 59, 99, 10,
      97, 44, 98, 59, 99, 10,
      97, 44, 98, 59, 99, 10,
      97, 44, 98, 59, 99, 10,
      97, 44, 98, 59, 99, 10,
      97, 44, 98, 59, 99, 10,
      97, 59, 99]"

section \<open>Facts about the string operations\<close>

lemma strip_all_space: "\<forall>c\<in>set s. isspace c \<Longrightarrow> strip s = []"
proof -
  assume "\<forall>c\<in>set s. isspace c"
  then have d: "dropWhile isspace s = []" by (induction s) simp_all
  show ?thesis unfolding strip_def d by simp
qed

lemma splitlines_Nil: "splitlines [] = []"
  by (simp add: splitlines_def)

lemma retained_lines_blank: "\<forall>c\<in>set text. isspace c \<Longrightarrow> retained_lines text = []"
  by (simp add: retained_lines_def strip_all_space splitlines_Nil)

lemma split_from_not_Nil: "split_from sep cur s \<noteq> []"
  by (induction s arbitrary: cur) auto

lemma join_Cons: "join sep (x # xs) = (if xs = [] then x else x @ sep @ join sep xs)"
  by (cases xs) auto

lemma join_split_from: "join [sep] (split_from sep cur s) = cur @ s"
  by (induction s arbitrary: cur) (auto simp: join_Cons split_from_not_Nil)

lemma split_from_no_sep: "sep \<notin> set s \<Longrightarrow> split_from sep cur s = [cur @ s]"
  by (induction s arbitrary: cur) auto

lemma sample_of_Nil: "sample_of [] = []"
  by (simp add: sample_of_def)

section \<open>The tab strategy\<close>

lemma parse_tab:
  assumes "TAB \<in> set (sample_of (retained_lines text))"
  shows "parse_text_to_rows sniff text = tab_rows (retained_lines text)"
proof -
  from assms have "retained_lines text \<noteq> []"
    by (auto simp: sample_of_Nil)
  with assms show ?thesis
    by (simp add: parse_text_to_rows_def Let_def)
qed

text \<open>
  Claim C1. When the sample (the first 20 retained lines joined by newlines) contains a
  tab, the result is every retained line split on tabs, whatever the sniffer would say
  about commas, semicolons or pipes; the cells are the pieces as they stand, untrimmed.
\<close>

theorem tab_strategy_splits_every_line:
  assumes "TAB \<in> set (sample_of (retained_lines text))"
  shows "parse_text_to_rows sniff text = map (split TAB) (retained_lines text)"
  using parse_tab [OF assms] by (simp add: tab_rows_def)

text \<open>
  The input is \<open>x<TAB> y,z<LF>1<TAB>2 |3<LF>\<close>, with a sniffer that would accept the
  comma: the cells \<open>" y,z"\<close> and \<open>"2 |3"\<close> keep their spaces and their delimiters.
\<close>

theorem tab_strategy_splits_every_line_witness:
  "TAB \<in> set (sample_of (retained_lines [120, 9, 32, 121, 44, 122, 10, 49, 9, 50, 32, 124, 51, 10]))
   \<and> parse_text_to_rows
        (\<lambda>sample delims. Inr \<lparr>delimiter = COMMA, quotechar = DQUOTE, doublequote = False,
                                skipinitialspace = False\<rparr>)
        [120, 9, 32, 121, 44, 122, 10, 49, 9, 50, 32, 124, 51, 10]
     = [[[120], [32, 121, 44, 122]], [[49], [50, 32, 124, 51]]]"
proof -
  have l: "retained_lines [120, 9, 32, 121, 44, 122, 10, 49, 9, 50, 32, 124, 51, 10]
        = [[120, 9, 32, 121, 44, 122], [49, 9, 50, 32, 124, 51]]"
    by (simp add: retained_lines_def strip_def isspace_def splitlines_def is_linebreak_def
        CR_def LF_def)
  have h: "TAB \<in> set (sample_of (retained_lines
             [120, 9, 32, 121, 44, 122, 10, 49, 9, 50, 32, 124, 51, 10]))"
    by (simp add: l sample_of_def TAB_def)
  show ?thesis
    using h tab_strategy_splits_every_line [OF h]
    by (simp add: l split_def TAB_def)
qed

text \<open>
  Claim C10. In the tab strategy the split loses nothing: joining the cells of each row
  with one tab gives back the retained line, and a retained line without a tab is a row of
  one cell, the line itself.
\<close>

theorem tab_split_is_lossless:
  assumes "TAB \<in> set (sample_of (retained_lines text))"
  shows "map (join [TAB]) (parse_text_to_rows sniff text) = retained_lines text
       \<and> (\<forall>i < length (retained_lines text). TAB \<notin> set (retained_lines text ! i) \<longrightarrow>
            parse_text_to_rows sniff text ! i = [retained_lines text ! i])"
proof -
  have "map (join [TAB]) (map (split TAB) ls) = ls" for ls
    by (induction ls) (auto simp: split_def join_split_from)
  moreover have "\<forall>i < length ls. TAB \<notin> set (ls ! i) \<longrightarrow> map (split TAB) ls ! i = [ls ! i]" for ls
    by (simp add: split_def split_from_no_sep)
  ultimately show ?thesis
    by (simp add: parse_tab [OF assms] tab_rows_def)
qed

text \<open>The input is \<open>a<TAB><TAB> b<LF>c d<LF>\<close>: the second line has no tab.\<close>

theorem tab_split_is_lossless_witness:
  "TAB \<in> set (sample_of (retained_lines [97, 9, 9, 32, 98, 10, 99, 32, 100, 10]))
   \<and> map (join [TAB])
        (parse_text_to_rows (\<lambda>sample delims. Inl Could_Not_Determine_Delimiter)
           [97, 9, 9, 32, 98, 10, 99, 32, 100, 10])
     = [[97, 9, 9, 32, 98], [99, 32, 100]]
   \<and> parse_text_to_rows (\<lambda>sample delims. Inl Could_Not_Determine_Delimiter)
        [97, 9, 9, 32, 98, 10, 99, 32, 100, 10] ! 1 = [[99, 32, 100]]"
proof -
  have l: "retained_lines [97, 9, 9, 32, 98, 10, 99, 32, 100, 10]
        = [[97, 9, 9, 32, 98], [99, 32, 100]]"
    by (simp add: retained_lines_def strip_def isspace_def splitlines_def is_linebreak_def
        CR_def LF_def)
  have h: "TAB \<in> set (sample_of (retained_lines [97, 9, 9, 32, 98, 10, 99, 32, 100, 10]))"
    by (simp add: l sample_of_def TAB_def)
  show ?thesis
    using h tab_split_is_lossless [OF h, of "\<lambda>sample delims. Inl Could_Not_Determine_Delimiter"]
    by (simp add: l TAB_def)
qed

section \<open>Blank input\<close>

text \<open>
  Claim C8. Empty or whitespace-only input gives the empty table, whatever the sniffer is
  (no strategy is consulted), and writing no rows gives an empty output.
\<close>

theorem blank_input_and_no_rows:
  "((\<forall>c\<in>set text. isspace c) \<longrightarrow> parse_text_to_rows sniff text = [])
   \<and> write_rows [] [sep] = Inr []"
  by (simp add: parse_text_to_rows_def retained_lines_blank write_rows_def written_text_def)

text \<open>The input is a space, a newline, a tab and a no-break space.\<close>

theorem blank_input_and_no_rows_witness:
  "list_all isspace [32, 10, 9, 160]
   \<and> parse_text_to_rows (\<lambda>sample delims. Inr \<lparr>delimiter = COMMA, quotechar = DQUOTE,
        doublequote = False, skipinitialspace = False\<rparr>) [32, 10, 9, 160] = []
   \<and> write_rows [] [COMMA] = Inr []"
proof -
  have h: "\<forall>c\<in>set [32, 10, 9, 160]. isspace c"
    by (simp add: isspace_def)
  show ?thesis
    using h blank_input_and_no_rows [of "[32, 10, 9, 160]" _ COMMA]
    by (simp add: list_all_iff)
qed

section \<open>The aligned fallback\<close>

lemma re_split_from_not_Nil: "re_split_from cur s \<noteq> []"
  by (induction cur s rule: re_split_from.induct) auto

lemma re_split_from_no_run: "\<not> has_run s \<Longrightarrow> re_split_from cur s = [cur @ s]"
  by (induction cur s rule: re_split_from.induct) auto

lemma re_split_from_interleave:
  "\<exists>seps. length seps + 1 = length (re_split_from cur s)
        \<and> (\<forall>sp\<in>set seps. 2 \<le> length sp \<and> (\<forall>c\<in>set sp. isspace c))
        \<and> interleave (re_split_from cur s) seps = cur @ s"
proof (induction cur s rule: re_split_from.induct)
  case (1 cur)
  show ?case by (rule exI [of _ "[]"]) simp
next
  case (2 cur c)
  show ?case by (rule exI [of _ "[]"]) simp
next
  case (3 cur c n cs)
  show ?case
  proof (cases "isspace c \<and> isspace n")
    case True
    with 3 obtain seps where s:
      "length seps + 1 = length (re_split_from [] (dropWhile isspace cs))"
      "\<forall>sp\<in>set seps. 2 \<le> length sp \<and> (\<forall>c\<in>set sp. isspace c)"
      "interleave (re_split_from [] (dropWhile isspace cs)) seps = dropWhile isspace cs"
      by auto
    let ?sp = "c # n # takeWhile isspace cs"
    have "\<forall>c\<in>set ?sp. isspace c"
      using True by (auto dest: set_takeWhileD)
    moreover have "interleave (re_split_from cur (c # n # cs)) (?sp # seps) = cur @ c # n # cs"
      using True s(3) by simp
    ultimately show ?thesis
      using True s(1,2) by (intro exI [of _ "?sp # seps"]) simp
  next
    case False
    with 3 show ?thesis by auto
  qed
qed

lemma has_run_snoc:
  "has_run (xs @ [c]) = (has_run xs \<or> (xs \<noteq> [] \<and> isspace (last xs) \<and> isspace c))"
  by (induction xs rule: has_run.induct) auto

lemma last_dropWhile: "dropWhile P xs \<noteq> [] \<Longrightarrow> last (dropWhile P xs) = last xs"
  by (induction xs) (auto split: if_splits)

lemma strip_trimmed: "trimmed s \<Longrightarrow> strip s = s"
proof (cases s)
  case Nil
  then show ?thesis by (simp add: strip_def)
next
  case (Cons a as)
  assume "trimmed s"
  with Cons have h: "\<not> isspace a" and l: "\<not> isspace (last s)" by (auto simp: trimmed_def)
  from h Cons have 1: "dropWhile isspace s = s" by simp
  from Cons have r: "rev s = last s # rev (butlast s)"
    by (metis list.distinct(1) rev.simps(2) rev_rev_ident snoc_eq_iff_butlast)
  have 2: "dropWhile isspace (rev s) = rev s"
    unfolding r using l by simp
  show ?thesis by (simp add: strip_def 1 2)
qed

lemma trimmed_strip: "trimmed (strip s)"
proof -
  let ?t = "dropWhile isspace s"
  let ?u = "dropWhile isspace (rev ?t)"
  show ?thesis
  proof (cases "?u = []")
    case True
    then show ?thesis by (simp add: strip_def trimmed_def)
  next
    case False
    then have a: "\<not> isspace (hd ?u)" by (rule hd_dropWhile)
    from False have "?t \<noteq> []"
      by (metis dropWhile.simps(1) rev.simps(1))
    then have b: "\<not> isspace (hd ?t)" by (rule hd_dropWhile)
    from False have "last ?u = last (rev ?t)" by (rule last_dropWhile)
    with \<open>?t \<noteq> []\<close> have c: "last ?u = hd ?t" by (simp add: last_rev)
    from False a b c show ?thesis
      by (simp add: strip_def trimmed_def hd_rev last_rev)
  qed
qed

lemma strip_idem: "strip (strip s) = strip s"
  by (rule strip_trimmed [OF trimmed_strip])

lemma dropWhile_keeps_last: "xs \<noteq> [] \<Longrightarrow> \<not> P (last xs) \<Longrightarrow> dropWhile P xs \<noteq> []"
  by (induction xs) (auto split: if_splits)

lemma re_split_from_pieces:
  assumes "\<not> has_run cur"
      and "cur \<noteq> [] \<longrightarrow> \<not> isspace (hd cur)"
      and "cur = [] \<or> isspace (last cur) \<longrightarrow> s \<noteq> [] \<and> \<not> isspace (hd s)"
      and "s \<noteq> [] \<longrightarrow> \<not> isspace (last s)"
  shows "\<forall>p\<in>set (re_split_from cur s). p \<noteq> [] \<and> trimmed p \<and> \<not> has_run p"
  using assms
proof (induction cur s rule: re_split_from.induct)
  case (1 cur)
  then show ?case by (auto simp: trimmed_def)
next
  case (2 cur c)
  then show ?case by (auto simp: trimmed_def has_run_snoc hd_append)
next
  case (3 cur c n cs)
  show ?case
  proof (cases "isspace c \<and> isspace n")
    case True
    with 3(5) have cur: "cur \<noteq> []" "\<not> isspace (last cur)" by auto
    from True 3(6) have cs: "cs \<noteq> []" "\<not> isspace (last cs)" by (auto split: if_splits)
    let ?rest = "dropWhile isspace cs"
    from cs have r: "?rest \<noteq> []" by (rule dropWhile_keeps_last)
    then have "\<not> isspace (hd ?rest)" by (rule hd_dropWhile)
    moreover from r cs have "\<not> isspace (last ?rest)" by (simp add: last_dropWhile)
    ultimately have "\<forall>p\<in>set (re_split_from [] ?rest). p \<noteq> [] \<and> trimmed p \<and> \<not> has_run p"
      using True r by (intro 3(1)) auto
    moreover have "cur \<noteq> [] \<and> trimmed cur \<and> \<not> has_run cur"
      using cur 3(3,4) by (simp add: trimmed_def)
    ultimately show ?thesis using True by simp
  next
    case False
    have "\<forall>p\<in>set (re_split_from (cur @ [c]) (n # cs)). p \<noteq> [] \<and> trimmed p \<and> \<not> has_run p"
    proof (rule 3(2) [OF False])
      show "\<not> has_run (cur @ [c])" using 3(3,5) by (auto simp: has_run_snoc)
      show "cur @ [c] \<noteq> [] \<longrightarrow> \<not> isspace (hd (cur @ [c]))"
        using 3(4,5) by (auto simp: hd_append)
      show "cur @ [c] = [] \<or> isspace (last (cur @ [c])) \<longrightarrow> n # cs \<noteq> [] \<and> \<not> isspace (hd (n # cs))"
        using False 3(5) by auto
      show "n # cs \<noteq> [] \<longrightarrow> \<not> isspace (last (n # cs))" using 3(6) by simp
    qed
    with False show ?thesis by auto
  qed
qed

lemma strip_Nil: "strip [] = []"
  by (simp add: strip_def)

lemma re_split_trimmed:
  assumes "trimmed s" and "s \<noteq> []"
  shows "\<forall>p\<in>set (re_split s). p \<noteq> [] \<and> trimmed p \<and> \<not> has_run p"
  unfolding re_split_def
  using assms by (intro re_split_from_pieces) (auto simp: trimmed_def)

lemma aligned_row_eq: "aligned_row ln = re_split (strip ln)"
proof (cases "strip ln = []")
  case True
  then show ?thesis by (simp add: aligned_row_def re_split_def strip_Nil)
next
  case False
  with re_split_trimmed [OF trimmed_strip False]
  have "\<forall>p\<in>set (re_split (strip ln)). strip p = p"
    by (auto intro: strip_trimmed)
  then show ?thesis
    by (simp add: aligned_row_def map_idI)
qed

lemma aligned_row_not_Nil: "aligned_row ln \<noteq> []"
  by (simp add: aligned_row_def re_split_def re_split_from_not_Nil)

lemma aligned_row_no_run: "\<not> has_run (strip ln) \<Longrightarrow> aligned_row ln = [strip ln]"
  by (simp add: aligned_row_eq re_split_def re_split_from_no_run)

lemma aligned_row_cells:
  "\<forall>cell\<in>set (aligned_row ln). strip cell = cell \<and> \<not> has_run cell"
proof (cases "strip ln = []")
  case True
  then show ?thesis by (simp add: aligned_row_eq re_split_def strip_Nil)
next
  case False
  with re_split_trimmed [OF trimmed_strip False] show ?thesis
    by (auto simp: aligned_row_eq intro: strip_trimmed)
qed

lemma aligned_row_cells_not_Nil:
  "strip ln \<noteq> [] \<Longrightarrow> \<forall>cell\<in>set (aligned_row ln). cell \<noteq> []"
  using re_split_trimmed [OF trimmed_strip] by (auto simp: aligned_row_eq)

lemma aligned_row_interleave:
  "\<exists>seps. length seps + 1 = length (aligned_row ln)
        \<and> (\<forall>sp\<in>set seps. 2 \<le> length sp \<and> (\<forall>c\<in>set sp. isspace c))
        \<and> interleave (aligned_row ln) seps = strip ln"
  using re_split_from_interleave [of "[]" "strip ln"]
  by (simp add: aligned_row_eq re_split_def)

lemma parse_fallback:
  assumes "TAB \<notin> set (sample_of (retained_lines text))"
      and "sniffed_rows sniff (retained_lines text) = Inl e"
  shows "parse_text_to_rows sniff text = aligned_rows (retained_lines text)"
  using assms by (simp add: parse_text_to_rows_def Let_def aligned_rows_def)

text \<open>
  Claim C3, as amended. With no tab in the sample and a sniffer that finds no delimiter,
  every retained line is trimmed and split on the runs of two or more whitespace
  characters (any character of \<open>isspace\<close>, not the space alone): the cells of a row,
  with separators that are runs of at least two whitespace characters put between them,
  make up the trimmed line; no cell is empty, starts or ends with whitespace, or has two
  adjacent whitespace characters; a line without such a run is one cell.
\<close>

theorem aligned_fallback_splits_on_whitespace_runs:
  assumes "TAB \<notin> set (sample_of (retained_lines text))"
      and "sniff (sample_of (retained_lines text)) (concat CANDIDATE_DELIMS) = Inl e"
  shows "parse_text_to_rows sniff text = map aligned_row (retained_lines text)
       \<and> (\<forall>ln\<in>set (retained_lines text).
            aligned_row ln \<noteq> []
          \<and> (\<exists>seps. length seps + 1 = length (aligned_row ln)
                 \<and> (\<forall>sp\<in>set seps. 2 \<le> length sp \<and> (\<forall>c\<in>set sp. isspace c))
                 \<and> interleave (aligned_row ln) seps = strip ln)
          \<and> (\<forall>cell\<in>set (aligned_row ln). cell \<noteq> [] \<and> strip cell = cell \<and> \<not> has_run cell)
          \<and> (\<not> has_run (strip ln) \<longrightarrow> aligned_row ln = [strip ln]))"
proof -
  from assms(2) have "sniffed_rows sniff (retained_lines text) = Inl e"
    by (simp add: sniffed_rows_def)
  with assms(1) have "parse_text_to_rows sniff text = map aligned_row (retained_lines text)"
    by (simp add: parse_fallback aligned_rows_def)
  moreover have "aligned_row ln \<noteq> []
          \<and> (\<exists>seps. length seps + 1 = length (aligned_row ln)
                 \<and> (\<forall>sp\<in>set seps. 2 \<le> length sp \<and> (\<forall>c\<in>set sp. isspace c))
                 \<and> interleave (aligned_row ln) seps = strip ln)
          \<and> (\<forall>cell\<in>set (aligned_row ln). cell \<noteq> [] \<and> strip cell = cell \<and> \<not> has_run cell)
          \<and> (\<not> has_run (strip ln) \<longrightarrow> aligned_row ln = [strip ln])"
    if "ln \<in> set (retained_lines text)" for ln
  proof (intro conjI)
    from that have ne: "strip ln \<noteq> []"
      by (simp add: retained_lines_def)
    show "aligned_row ln \<noteq> []"
      by (rule aligned_row_not_Nil)
    show "\<exists>seps. length seps + 1 = length (aligned_row ln)
                 \<and> (\<forall>sp\<in>set seps. 2 \<le> length sp \<and> (\<forall>c\<in>set sp. isspace c))
                 \<and> interleave (aligned_row ln) seps = strip ln"
      by (rule aligned_row_interleave)
    show "\<forall>cell\<in>set (aligned_row ln). cell \<noteq> [] \<and> strip cell = cell \<and> \<not> has_run cell"
      using aligned_row_cells [of ln] aligned_row_cells_not_Nil [OF ne] by blast
    show "\<not> has_run (strip ln) \<longrightarrow> aligned_row ln = [strip ln]"
      using aligned_row_no_run [of ln] by blast
  qed
  ultimately show ?thesis
    by blast
qed

text \<open>
  The input is \<open>Name    Age  City\<close> (four spaces, then two), then a newline and
  \<open>a b\<close>: three cells, and one cell.
\<close>

theorem aligned_fallback_splits_on_whitespace_runs_witness:
  "TAB \<notin> set (sample_of (retained_lines
      [78, 97, 109, 101, 32, 32, 32, 32, 65, 103, 101, 32, 32, 67, 105, 116, 121, 10, 97, 32, 98]))
   \<and> parse_text_to_rows (\<lambda>sample delims. Inl Could_Not_Determine_Delimiter)
        [78, 97, 109, 101, 32, 32, 32, 32, 65, 103, 101, 32, 32, 67, 105, 116, 121, 10, 97, 32, 98]
     = [[[78, 97, 109, 101], [65, 103, 101], [67, 105, 116, 121]], [[97, 32, 98]]]"
proof -
  have l: "retained_lines
      [78, 97, 109, 101, 32, 32, 32, 32, 65, 103, 101, 32, 32, 67, 105, 116, 121, 10, 97, 32, 98]
    = [[78, 97, 109, 101, 32, 32, 32, 32, 65, 103, 101, 32, 32, 67, 105, 116, 121], [97, 32, 98]]"
    by (simp add: retained_lines_def strip_def isspace_def splitlines_def is_linebreak_def
        CR_def LF_def)
  have h: "TAB \<notin> set (sample_of (retained_lines
      [78, 97, 109, 101, 32, 32, 32, 32, 65, 103, 101, 32, 32, 67, 105, 116, 121, 10, 97, 32, 98]))"
    by (simp add: l sample_of_def TAB_def LF_def)
  have r1: "aligned_row [78, 97, 109, 101, 32, 32, 32, 32, 65, 103, 101, 32, 32, 67, 105, 116, 121]
    = [[78, 97, 109, 101], [65, 103, 101], [67, 105, 116, 121]]"
    by (simp add: aligned_row_def re_split_def strip_def isspace_def)
  have r2: "aligned_row [97, 32, 98] = [[97, 32, 98]]"
    by (simp add: aligned_row_def re_split_def strip_def isspace_def)
  show ?thesis
    using h aligned_fallback_splits_on_whitespace_runs
      [OF h, of "\<lambda>sample delims. Inl Could_Not_Determine_Delimiter" Could_Not_Determine_Delimiter]
    by (simp add: l r1 r2)
qed

text \<open>
  Claim C3 as stated fails: the line \<open>a<NBSP><NBSP>b\<close> has no space character (U+0020) and
  no tab, the sniffer finds no delimiter, and the line is split in two cells at the two
  no-break spaces.
\<close>

theorem other_whitespace_splits_counterexample:
  "SPACE \<notin> set [97, 160, 160, 98]
   \<and> TAB \<notin> set (sample_of (retained_lines [97, 160, 160, 98]))
   \<and> parse_text_to_rows (\<lambda>sample delims. Inl Could_Not_Determine_Delimiter) [97, 160, 160, 98]
     = [[[97], [98]]]"
proof -
  have l: "retained_lines [97, 160, 160, 98] = [[97, 160, 160, 98]]"
    by (simp add: retained_lines_def strip_def isspace_def splitlines_def is_linebreak_def
        CR_def LF_def)
  have r: "aligned_row [97, 160, 160, 98] = [[97], [98]]"
    by (simp add: aligned_row_def re_split_def strip_def isspace_def)
  show ?thesis
    by (simp add: parse_text_to_rows_def l r sample_of_def sniffed_rows_def aligned_rows_def
        TAB_def SPACE_def)
qed

text \<open>
  Claim C4. The detector has no error result: the sniffer's exception and the reader's
  exception are values inside it. When the sniffed strategy fails, by the sniffer or by
  the reader, the result is the aligned fallback: one row per retained line, no row empty,
  and a line without a whitespace run is the single cell of its row.
\<close>

theorem sniffing_failure_is_absorbed:
  assumes "TAB \<notin> set (sample_of (retained_lines text))"
      and "sniff (sample_of (retained_lines text)) (concat CANDIDATE_DELIMS) = Inl e
         \<or> (\<exists>d. sniff (sample_of (retained_lines text)) (concat CANDIDATE_DELIMS) = Inr d
                \<and> csv_reader d (retained_lines text) = Inl e)"
  shows "parse_text_to_rows sniff text = aligned_rows (retained_lines text)
       \<and> length (parse_text_to_rows sniff text) = length (retained_lines text)
       \<and> (\<forall>row\<in>set (parse_text_to_rows sniff text). row \<noteq> [])
       \<and> (\<forall>i < length (retained_lines text).
            \<not> has_run (strip (retained_lines text ! i)) \<longrightarrow>
            parse_text_to_rows sniff text ! i = [strip (retained_lines text ! i)])"
proof -
  from assms(2) have "sniffed_rows sniff (retained_lines text) = Inl e"
    by (auto simp: sniffed_rows_def)
  with assms(1) have "parse_text_to_rows sniff text = aligned_rows (retained_lines text)"
    by (rule parse_fallback)
  then show ?thesis
    by (auto simp: aligned_rows_def aligned_row_not_Nil aligned_row_no_run)
qed

text \<open>The input is \<open>hi you<LF>ok\<close>, on which the sniffer gives up.\<close>

theorem sniffing_failure_is_absorbed_witness:
  "TAB \<notin> set (sample_of (retained_lines [104, 105, 32, 121, 111, 117, 10, 111, 107]))
   \<and> parse_text_to_rows (\<lambda>sample delims. Inl Could_Not_Determine_Delimiter)
        [104, 105, 32, 121, 111, 117, 10, 111, 107]
     = [[[104, 105, 32, 121, 111, 117]], [[111, 107]]]"
proof -
  have l: "retained_lines [104, 105, 32, 121, 111, 117, 10, 111, 107]
    = [[104, 105, 32, 121, 111, 117], [111, 107]]"
    by (simp add: retained_lines_def strip_def isspace_def splitlines_def is_linebreak_def
        CR_def LF_def)
  have h: "TAB \<notin> set (sample_of (retained_lines [104, 105, 32, 121, 111, 117, 10, 111, 107]))"
    by (simp add: l sample_of_def TAB_def LF_def)
  have r1: "aligned_row [104, 105, 32, 121, 111, 117] = [[104, 105, 32, 121, 111, 117]]"
    by (simp add: aligned_row_def re_split_def strip_def isspace_def)
  have r2: "aligned_row [111, 107] = [[111, 107]]"
    by (simp add: aligned_row_def re_split_def strip_def isspace_def)
  show ?thesis
    using h sniffing_failure_is_absorbed
      [OF h, of "\<lambda>sample delims. Inl Could_Not_Determine_Delimiter" Could_Not_Determine_Delimiter]
    by (simp add: l r1 r2 aligned_rows_def)
qed

section \<open>The serializer's output\<close>

lemma join_append_data_eq:
  "join_append_data cell = concat (map (\<lambda>c. if c = DQUOTE then [DQUOTE, DQUOTE] else [c]) cell)"
  by (induction cell) auto

lemma join_append_data_plain: "DQUOTE \<notin> set cell \<Longrightarrow> join_append_data cell = cell"
  by (induction cell) auto

lemma join_append_spec:
  "join_append sep w cell False =
     \<lparr>rec = rec w @ (if num_fields w > 0 then [sep] else []) @ spec_cell sep cell,
      num_fields = num_fields w + 1\<rparr>"
proof (cases "list_ex (forces_quotes sep) cell")
  case True
  then show ?thesis
    by (simp add: join_append_def spec_cell_def join_append_data_eq Let_def)
next
  case False
  then have "DQUOTE \<notin> set cell"
    by (auto simp: list_ex_iff forces_quotes_def)
  with False show ?thesis
    by (simp add: join_append_def spec_cell_def join_append_data_plain Let_def)
qed

lemma foldl_join_append_more:
  "num_fields w > 0 \<Longrightarrow>
   foldl (\<lambda>w fld. join_append sep w fld False) w row =
     \<lparr>rec = rec w @ concat (map (\<lambda>cell. sep # spec_cell sep cell) row),
      num_fields = num_fields w + length row\<rparr>"
  by (induction row arbitrary: w) (simp_all add: join_append_spec)

lemma join_as_concat: "join [sep] (x # xs) = x @ concat (map (\<lambda>y. sep # y) xs)"
  by (induction xs arbitrary: x) (simp_all add: join_Cons)

lemma foldl_join_append_reset:
  "foldl (\<lambda>w fld. join_append sep w fld False) join_reset row =
     \<lparr>rec = join [sep] (map (spec_cell sep) row), num_fields = length row\<rparr>"
proof (cases row)
  case Nil
  then show ?thesis by (simp add: join_reset_def)
next
  case (Cons cell cells)
  let ?w = "join_append sep join_reset cell False"
  have w: "?w = \<lparr>rec = spec_cell sep cell, num_fields = 1\<rparr>"
    by (simp add: join_append_spec join_reset_def)
  have "foldl (\<lambda>w fld. join_append sep w fld False) join_reset row
      = foldl (\<lambda>w fld. join_append sep w fld False) ?w cells"
    by (simp only: Cons foldl_Cons)
  also have "\<dots> = \<lparr>rec = rec ?w @ concat (map (\<lambda>cell. sep # spec_cell sep cell) cells),
                     num_fields = num_fields ?w + length cells\<rparr>"
    by (rule foldl_join_append_more) (simp add: w)
  finally show ?thesis
    by (simp add: w Cons join_as_concat comp_def)
qed

lemma spec_cell_Nil_iff: "spec_cell sep cell = [] \<longleftrightarrow> cell = []"
  by (cases cell) (simp_all add: spec_cell_def)

lemma join_Nil_iff: "join [sep] xs = [] \<longleftrightarrow> xs = [] \<or> xs = [[]]"
  by (cases xs) (auto simp: join_as_concat)

lemma writerow_spec: "writerow sep row = spec_row sep row"
proof -
  let ?w = "foldl (\<lambda>w fld. join_append sep w fld False) join_reset row"
  have w: "?w = \<lparr>rec = join [sep] (map (spec_cell sep) row), num_fields = length row\<rparr>"
    by (rule foldl_join_append_reset)
  have c: "(num_fields ?w > 0 \<and> rec ?w = []) \<longleftrightarrow> row = [[]]"
    unfolding w by (cases row) (auto simp: join_Nil_iff spec_cell_Nil_iff)
  show ?thesis
  proof (cases "row = [[]]")
    case True
    then show ?thesis
      by (simp add: writerow_def spec_row_def join_reset_def join_append_def Let_def spec_cell_def)
  next
    case False
    with c have "\<not> (num_fields ?w > 0 \<and> rec ?w = [])" by simp
    then have "writerow sep row = rec ?w @ [CR, LF]"
      unfolding writerow_def Let_def by (simp only: if_False)
    with False show ?thesis
      by (simp add: w spec_row_def)
  qed
qed

lemma written_text_spec: "written_text rows [sep] = Inr (spec_text sep rows)"
proof -
  have "writerow sep = spec_row sep"
    by (rule ext) (rule writerow_spec)
  then show ?thesis
    by (simp add: written_text_def spec_text_def)
qed

lemma utf8_encode_no_surrogate:
  "\<forall>c\<in>set t. \<not> is_surrogate c \<Longrightarrow> \<exists>bs. utf8_encode t = Inr bs"
  by (induction t) (auto simp: utf8_char_def is_surrogate_def)

lemma utf8_char_Inl: "utf8_char c = Inl e \<longleftrightarrow> is_surrogate c \<and> e = Unicode_Encode_Error"
  by (auto simp: utf8_char_def is_surrogate_def)

lemma utf8_encode_Inl:
  "utf8_encode t = Inl e \<longleftrightarrow> (\<exists>c\<in>set t. is_surrogate c) \<and> e = Unicode_Encode_Error"
proof (induction t)
  case Nil
  show ?case by simp
next
  case (Cons c cs)
  show ?case
  proof (cases "utf8_char c")
    case (Inl e')
    then show ?thesis using utf8_char_Inl [of c e'] by auto
  next
    case (Inr bs)
    then have "\<not> is_surrogate c" using utf8_char_Inl [of c] by auto
    with Inr Cons show ?thesis by (auto split: sum.splits)
  qed
qed

lemma utf8_encode_ascii: "\<forall>c\<in>set t. c < 128 \<Longrightarrow> utf8_encode t = Inr t"
  by (induction t) (auto simp: utf8_char_def)

text \<open>
  Claim C7, as amended. For every sequence of rows and one-character delimiter, the text
  written is the rows in order, each ended by \<open>\\r\\n\<close>; a row is its cells joined by the
  delimiter; a cell is written between quotes, its quote characters doubled, exactly when
  it contains the delimiter, a quote character, a carriage return or a line feed, and as
  it stands otherwise; a row that is one empty cell is written as two quote characters.
  The bytes are the UTF-8 encoding of that text, and the write fails exactly when the
  text has a surrogate code point.
\<close>

theorem serializer_renders_rows:
  "written_text rows [sep] = Inr (spec_text sep rows)
   \<and> write_rows rows [sep] = utf8_encode (spec_text sep rows)
   \<and> (write_rows rows [sep] = Inl Unicode_Encode_Error)
       = (\<exists>c\<in>set (spec_text sep rows). is_surrogate c)
   \<and> (\<exists>bs. write_rows rows [sep] = Inr bs)
       = (\<forall>c\<in>set (spec_text sep rows). \<not> is_surrogate c)"
proof -
  have w: "write_rows rows [sep] = utf8_encode (spec_text sep rows)"
    by (simp add: write_rows_def written_text_spec)
  have "(\<exists>bs. utf8_encode t = Inr bs) = (\<forall>c\<in>set t. \<not> is_surrogate c)" for t
    using utf8_encode_no_surrogate [of t] utf8_encode_Inl [of t Unicode_Encode_Error]
    by (cases "utf8_encode t") auto
  then show ?thesis
    by (simp add: w written_text_spec utf8_encode_Inl)
qed

text \<open>
  The rows are \<open>[a, "b,c", "]\<close>, \<open>[""]\<close>, \<open>[]\<close>, \<open>["", ""]\<close> and one cell holding U+00E9, written with a comma:
  \<open>a,"b,c",""""\<close>, then \<open>""\<close>, an empty line, \<open>,\<close> and U+00E9 in two bytes.
\<close>

theorem serializer_renders_rows_witness:
  "list_all (\<lambda>c. \<not> is_surrogate c)
     (spec_text COMMA [[[97], [98, 44, 99], [34]], [[]], [], [[], []], [[233]]])
   \<and> write_rows [[[97], [98, 44, 99], [34]], [[]], [], [[], []], [[233]]] [COMMA]
     = Inr [97, 44, 34, 98, 44, 99, 34, 44, 34, 34, 34, 34, 13, 10,
            34, 34, 13, 10,
            13, 10,
            44, 13, 10,
            195, 169, 13, 10]"
proof -
  have t: "spec_text COMMA [[[97], [98, 44, 99], [34]], [[]], [], [[], []], [[233]]]
    = [97, 44, 34, 98, 44, 99, 34, 44, 34, 34, 34, 34, 13, 10, 34, 34, 13, 10, 13, 10,
       44, 13, 10, 233, 13, 10]"
    by (simp add: spec_text_def spec_row_def spec_cell_def forces_quotes_def
        COMMA_def DQUOTE_def CR_def LF_def)
  show ?thesis
    using serializer_renders_rows [of "[[[97], [98, 44, 99], [34]], [[]], [], [[], []], [[233]]]" COMMA]
    by (simp add: t utf8_char_def is_surrogate_def)
qed

text \<open>
  Claim C7 as stated fails: the only cell of the row \<open>[""]\<close> contains no delimiter, no
  quote character and no line break, and it is written between quotes.
\<close>

theorem single_empty_cell_is_quoted_counterexample:
  "\<not> claimed_may_quote COMMA []
   \<and> write_rows [[[]]] [COMMA] = Inr [34, 34, 13, 10]"
  by (simp add: claimed_may_quote_def write_rows_def written_text_def writerow_def
      join_reset_def join_append_def utf8_char_def DQUOTE_def CR_def LF_def)

section \<open>Where the characters of the cells come from\<close>

lemmas reader_eval = csv_reader_def parse_reset_def parse_process_char_def start_field_def
  parse_save_field_def parse_add_char_def set_state_def is_newline_def after_eol_def field_limit_def
  comma_dialect_def COMMA_def DQUOTE_def CR_def LF_def SPACE_def

lemmas lines_eval = retained_lines_def strip_def isspace_def splitlines_def is_linebreak_def
  CR_def LF_def

lemma splitlines_from_chars:
  "\<forall>c\<in>set cur. \<not> is_linebreak c \<Longrightarrow>
   \<forall>ln\<in>set (splitlines_from cur s). \<forall>c\<in>set ln. \<not> is_linebreak c"
proof (induction cur s rule: splitlines_from.induct)
  case (1 cur)
  then show ?case by simp
next
  case (2 cur c)
  then show ?case by simp
next
  case (3 cur c n cs)
  show ?case
  proof (cases "is_linebreak c")
    case False
    with "3.prems" have "\<forall>x\<in>set (cur @ [c]). \<not> is_linebreak x" by simp
    from "3.IH"(3) [OF False this] False show ?thesis by simp
  next
    case True
    show ?thesis
    proof (cases "c = CR \<and> n = LF")
      case crlf: True
      have "\<forall>ln\<in>set (splitlines_from [] cs). \<forall>c\<in>set ln. \<not> is_linebreak c"
        by (rule "3.IH"(1) [OF True crlf]) simp
      with True crlf "3.prems" show ?thesis by simp
    next
      case other: False
      have "\<forall>ln\<in>set (splitlines_from [] (n # cs)). \<forall>c\<in>set ln. \<not> is_linebreak c"
        by (rule "3.IH"(2) [OF True other]) simp
      with "3.prems" show ?thesis
        unfolding splitlines_from.simps(3) [of cur c n cs] if_P [OF True] if_not_P [OF other]
        by simp
    qed
  qed
qed

lemma retained_lines_no_linebreak:
  "ln \<in> set (retained_lines text) \<Longrightarrow> c \<in> set ln \<Longrightarrow> \<not> is_linebreak c"
  using splitlines_from_chars [of "[]" "strip text"]
  by (auto simp: retained_lines_def splitlines_def)

lemma retained_lines_not_blank: "ln \<in> set (retained_lines text) \<Longrightarrow> strip ln \<noteq> []"
  by (simp add: retained_lines_def)

lemma set_strip: "set (strip s) \<subseteq> set s"
  by (auto simp: strip_def dest!: set_dropWhileD)

lemma split_from_chars: "\<Union>(set ` set (split_from sep cur s)) \<subseteq> set cur \<union> set s"
proof (induction s arbitrary: cur)
  case Nil
  show ?case by simp
next
  case (Cons a s)
  from Cons [of "[]"] Cons [of "cur @ [a]"] show ?case by auto
qed

lemma re_split_from_chars: "\<Union>(set ` set (re_split_from cur s)) \<subseteq> set cur \<union> set s"
  by (induction cur s rule: re_split_from.induct) (auto dest!: set_dropWhileD)

lemma tab_rows_chars: "table_chars (tab_rows lines) \<subseteq> \<Union>(set ` set lines)"
  using split_from_chars [of TAB "[]"]
  by (fastforce simp: table_chars_def tab_rows_def split_def)

lemma aligned_row_chars: "\<Union>(set ` set (aligned_row ln)) \<subseteq> set ln"
  using re_split_from_chars [of "[]" "strip ln"] set_strip [of ln]
  by (auto simp: aligned_row_eq re_split_def)

lemma aligned_rows_chars: "table_chars (aligned_rows lines) \<subseteq> \<Union>(set ` set lines)"
  using aligned_row_chars by (fastforce simp: table_chars_def aligned_rows_def)

lemma parse_add_char_Inr:
  "parse_add_char r c = Inr r' \<longleftrightarrow> length (field r) < field_limit \<and> r' = r\<lparr>field := field r @ [c]\<rparr>"
  by (auto simp: parse_add_char_def)

lemma set_state_add_char_Inr:
  "set_state s (parse_add_char r c) = Inr r' \<longleftrightarrow>
     length (field r) < field_limit \<and> r' = r\<lparr>field := field r @ [c], state := s\<rparr>"
  by (auto simp: parse_add_char_def set_state_def)

lemma start_field_chars:
  assumes "start_field d r c = Inr r'"
  shows "reader_chars r' \<subseteq> reader_chars r \<union> set_option c"
proof (cases c)
  case None
  with assms show ?thesis
    by (auto simp: start_field_def reader_chars_def parse_save_field_def is_newline_def)
next
  case (Some x)
  with assms show ?thesis
    by (auto simp: start_field_def reader_chars_def parse_save_field_def set_state_add_char_Inr
        split: if_splits)
qed

lemma parse_process_char_chars:
  assumes "parse_process_char d r c = Inr r'"
  shows "reader_chars r' \<subseteq> reader_chars r \<union> set_option c"
proof (cases "state r")
  case START_RECORD
  with assms start_field_chars [of d "r\<lparr>state := START_FIELD\<rparr>" c r'] show ?thesis
    by (auto simp: parse_process_char_def reader_chars_def split: if_splits)
next
  case START_FIELD
  with assms start_field_chars [of d r c r'] show ?thesis
    by (simp add: parse_process_char_def)
next
  case IN_FIELD
  with assms show ?thesis
    by (cases c)
       (auto simp: parse_process_char_def reader_chars_def parse_save_field_def
          parse_add_char_Inr is_newline_def split: if_splits)
next
  case IN_QUOTED_FIELD
  with assms show ?thesis
    by (cases c)
       (auto simp: parse_process_char_def reader_chars_def parse_add_char_Inr split: if_splits)
next
  case QUOTE_IN_QUOTED_FIELD
  with assms show ?thesis
    by (cases c)
       (auto simp: parse_process_char_def reader_chars_def parse_save_field_def
          set_state_add_char_Inr is_newline_def split: if_splits)
next
  case EAT_CRNL
  with assms show ?thesis
    by (auto simp: parse_process_char_def reader_chars_def split: if_splits)
qed

lemma process_line_chars:
  "process_line d r ln = Inr r' \<Longrightarrow> reader_chars r' \<subseteq> reader_chars r \<union> set ln"
proof (induction ln arbitrary: r)
  case Nil
  then show ?case using parse_process_char_chars [of d r None r'] by simp
next
  case (Cons c cs)
  from Cons.prems obtain r1 where 1: "parse_process_char d r (Some c) = Inr r1"
    and 2: "process_line d r1 cs = Inr r'"
    by (auto split: sum.splits)
  from parse_process_char_chars [OF 1] Cons.IH [OF 2] show ?case by auto
qed

lemma read_rows_chars:
  "read_rows d r lns = Inr rows \<Longrightarrow> table_chars rows \<subseteq> reader_chars r \<union> \<Union>(set ` set lns)"
proof (induction lns arbitrary: r rows)
  case Nil
  then show ?case
    by (auto simp: table_chars_def reader_chars_def parse_save_field_def split: if_splits)
next
  case (Cons ln lns)
  from Cons.prems obtain r1 where 1: "process_line d r ln = Inr r1"
    by (auto split: sum.splits)
  note c1 = process_line_chars [OF 1]
  show ?case
  proof (cases "state r1 = START_RECORD")
    case True
    with Cons.prems 1 obtain rows' where 2: "read_rows d parse_reset lns = Inr rows'"
      and 3: "rows = rfields r1 # rows'"
      by (auto split: sum.splits)
    have "table_chars rows' \<subseteq> \<Union>(set ` set lns)"
      using Cons.IH [OF 2] by (simp add: reader_chars_def parse_reset_def)
    moreover have "\<Union>(set ` set (rfields r1)) \<subseteq> reader_chars r1"
      by (auto simp: reader_chars_def)
    ultimately show ?thesis
      using c1 3 by (auto simp: table_chars_def)
  next
    case False
    with Cons.prems 1 have "read_rows d r1 lns = Inr rows" by simp
    from Cons.IH [OF this] c1 show ?thesis by auto
  qed
qed

lemma csv_reader_chars:
  "csv_reader d lines = Inr rows \<Longrightarrow> table_chars rows \<subseteq> \<Union>(set ` set lines)"
  using read_rows_chars [of d parse_reset lines rows]
  by (simp add: csv_reader_def reader_chars_def parse_reset_def)

lemma parse_chars:
  "table_chars (parse_text_to_rows sniff text) \<subseteq> \<Union>(set ` set (retained_lines text))"
proof -
  let ?lines = "retained_lines text"
  consider "?lines = []" | "?lines \<noteq> []" "TAB \<in> set (sample_of ?lines)"
    | rows where "?lines \<noteq> []" "TAB \<notin> set (sample_of ?lines)" "sniffed_rows sniff ?lines = Inr rows"
    | e where "?lines \<noteq> []" "TAB \<notin> set (sample_of ?lines)" "sniffed_rows sniff ?lines = Inl e"
    by (cases "sniffed_rows sniff ?lines") auto
  then show ?thesis
  proof cases
    case 1
    then show ?thesis by (simp add: parse_text_to_rows_def table_chars_def)
  next
    case 2
    then show ?thesis by (simp add: parse_tab tab_rows_chars)
  next
    case 3
    then have p: "parse_text_to_rows sniff text = rows"
      by (simp add: parse_text_to_rows_def)
    from 3(3) obtain d where "csv_reader d ?lines = Inr rows"
      by (auto simp: sniffed_rows_def split: sum.splits)
    then show ?thesis unfolding p by (rule csv_reader_chars)
  next
    case 4
    then show ?thesis by (simp add: parse_fallback aligned_rows_chars)
  qed
qed

text \<open>
  Claim C9. No cell of any row contains a line-break character, whatever the input and
  the sniffer: the cells are made of characters of the retained lines, and no retained
  line has a line-break character.
\<close>

theorem no_cell_has_a_line_break:
  "\<forall>row\<in>set (parse_text_to_rows sniff text). \<forall>cell\<in>set row. \<forall>c\<in>set cell. \<not> is_linebreak c"
proof (intro ballI)
  fix row cell c
  assume "row \<in> set (parse_text_to_rows sniff text)" "cell \<in> set row" "c \<in> set cell"
  then have "c \<in> table_chars (parse_text_to_rows sniff text)"
    by (auto simp: table_chars_def)
  with parse_chars obtain ln where "ln \<in> set (retained_lines text)" "c \<in> set ln"
    by blast
  then show "\<not> is_linebreak c"
    by (rule retained_lines_no_linebreak)
qed

text \<open>
  The input is \<open>a,"b<LF>c",d\<close>, read with the comma dialect: the quoted field runs over
  the line break, and the cell is \<open>bc\<close>, without it.
\<close>

theorem no_cell_has_a_line_break_witness:
  "parse_text_to_rows sniff_comma [97, 44, 34, 98, 10, 99, 34, 44, 100] = [[[97], [98, 99], [100]]]
   \<and> list_all (list_all (list_all (\<lambda>c. \<not> is_linebreak c)))
        (parse_text_to_rows sniff_comma [97, 44, 34, 98, 10, 99, 34, 44, 100])"
proof -
  have l: "retained_lines [97, 44, 34, 98, 10, 99, 34, 44, 100] = [[97, 44, 34, 98], [99, 34, 44, 100]]"
    by (simp add: lines_eval)
  have r: "csv_reader comma_dialect [[97, 44, 34, 98], [99, 34, 44, 100]] = Inr [[[97], [98, 99], [100]]]"
    by (simp add: reader_eval)
  have p: "parse_text_to_rows sniff_comma [97, 44, 34, 98, 10, 99, 34, 44, 100] = [[[97], [98, 99], [100]]]"
    by (simp add: parse_text_to_rows_def l sample_of_def sniffed_rows_def sniff_comma_def r
        TAB_def LF_def)
  show ?thesis
    using no_cell_has_a_line_break [of sniff_comma "[97, 44, 34, 98, 10, 99, 34, 44, 100]"]
    by (simp add: p list_all_iff)
qed

section \<open>The number of rows\<close>

lemma read_rows_length_le:
  "read_rows d r lns = Inr rows \<Longrightarrow>
   length rows \<le> (if lns = [] then (if field r \<noteq> [] \<or> state r = IN_QUOTED_FIELD then 1 else 0)
                   else length lns)"
proof (induction lns arbitrary: r rows)
  case Nil
  then show ?case by (auto split: if_splits)
next
  case (Cons ln lns)
  from Cons.prems obtain r1 where 1: "process_line d r ln = Inr r1"
    by (auto split: sum.splits)
  show ?case
  proof (cases "state r1 = START_RECORD")
    case True
    with Cons.prems 1 obtain rows' where 2: "read_rows d parse_reset lns = Inr rows'"
      and 3: "rows = rfields r1 # rows'"
      by (auto split: sum.splits)
    from Cons.IH [OF 2] have "length rows' \<le> length lns"
      by (simp add: parse_reset_def split: if_splits)
    with 3 show ?thesis by simp
  next
    case False
    with Cons.prems 1 have "read_rows d r1 lns = Inr rows" by simp
    from Cons.IH [OF this] have "length rows \<le> Suc (length lns)"
      by (simp split: if_splits)
    then show ?thesis by simp
  qed
qed

lemma csv_reader_length_le: "csv_reader d lines = Inr rows \<Longrightarrow> length rows \<le> length lines"
  using read_rows_length_le [of d parse_reset lines rows]
  by (simp add: csv_reader_def parse_reset_def split: if_splits)

text \<open>
  Without the quote character and without carriage return or line feed in a line, the
  machine never enters a quoted field, and the end of the line ends the record.
\<close>

lemma unquoted_step:
  assumes "parse_process_char d r (Some c) = Inr r'"
      and "state r \<in> {START_RECORD, START_FIELD, IN_FIELD}"
      and "c \<noteq> quotechar d" "c \<noteq> CR" "c \<noteq> LF"
  shows "state r' \<in> {START_FIELD, IN_FIELD}"
proof -
  have sf: "state r1 \<in> {START_FIELD, IN_FIELD}"
    if "start_field d r0 (Some c) = Inr r1" "state r0 = START_FIELD" for r0 r1
    using that assms(3-5)
    by (auto simp: start_field_def is_newline_def parse_save_field_def set_state_add_char_Inr
        split: if_splits)
  from assms(2) consider "state r = START_RECORD" | "state r = START_FIELD" | "state r = IN_FIELD"
    by auto
  then show ?thesis
  proof cases
    case 1
    with assms(1,4,5) have "start_field d (r\<lparr>state := START_FIELD\<rparr>) (Some c) = Inr r'"
      by (simp add: parse_process_char_def is_newline_def)
    then show ?thesis by (rule sf) simp
  next
    case 2
    with assms(1) have "start_field d r (Some c) = Inr r'"
      by (simp add: parse_process_char_def)
    then show ?thesis using 2 by (rule sf)
  next
    case 3
    with assms(1,4,5) show ?thesis
      by (auto simp: parse_process_char_def is_newline_def parse_save_field_def
          parse_add_char_Inr split: if_splits)
  qed
qed

lemma unquoted_eol:
  assumes "parse_process_char d r None = Inr r'"
      and "state r \<in> {START_RECORD, START_FIELD, IN_FIELD}"
  shows "state r' = START_RECORD"
  using assms
  by (auto simp: parse_process_char_def start_field_def is_newline_def after_eol_def
      parse_save_field_def)

lemma unquoted_line:
  assumes "process_line d r ln = Inr r'"
      and "state r \<in> {START_RECORD, START_FIELD, IN_FIELD}"
      and "quotechar d \<notin> set ln" "CR \<notin> set ln" "LF \<notin> set ln"
  shows "state r' = START_RECORD"
  using assms
proof (induction ln arbitrary: r)
  case Nil
  then show ?case using unquoted_eol [of d r r'] by simp
next
  case (Cons c cs)
  from Cons.prems(1) obtain r1 where 1: "parse_process_char d r (Some c) = Inr r1"
    and 2: "process_line d r1 cs = Inr r'"
    by (auto split: sum.splits)
  from unquoted_step [OF 1 Cons.prems(2)] Cons.prems(3-5)
  have "state r1 \<in> {START_RECORD, START_FIELD, IN_FIELD}" by auto
  with Cons.IH [OF 2] Cons.prems(3-5) show ?case by simp
qed

lemma read_rows_unquoted_length:
  assumes "read_rows d parse_reset lns = Inr rows"
      and "\<forall>ln\<in>set lns. quotechar d \<notin> set ln \<and> CR \<notin> set ln \<and> LF \<notin> set ln"
  shows "length rows = length lns"
  using assms
proof (induction lns arbitrary: rows)
  case Nil
  then show ?case by (simp add: parse_reset_def)
next
  case (Cons ln lns)
  from Cons.prems(1) obtain r1 where 1: "process_line d parse_reset ln = Inr r1"
    by (auto split: sum.splits)
  have "state r1 = START_RECORD"
    using 1 Cons.prems(2) by (intro unquoted_line [OF 1]) (auto simp: parse_reset_def)
  with Cons.prems(1) 1 obtain rows' where 2: "read_rows d parse_reset lns = Inr rows'"
    and 3: "rows = rfields r1 # rows'"
    by (auto split: sum.splits)
  from Cons.IH [OF 2] Cons.prems(2) 3 show ?case by simp
qed

lemma linebreak_CR_LF: "is_linebreak CR" "is_linebreak LF"
  by (simp_all add: is_linebreak_def CR_def LF_def)

lemma parse_length_le: "length (parse_text_to_rows sniff text) \<le> length (retained_lines text)"
proof -
  let ?lines = "retained_lines text"
  show ?thesis
  proof (cases "?lines = [] \<or> TAB \<in> set (sample_of ?lines)")
    case True
    then show ?thesis
      by (auto simp: parse_text_to_rows_def Let_def tab_rows_def)
  next
    case False
    show ?thesis
    proof (cases "sniffed_rows sniff ?lines")
      case (Inl e)
      with False show ?thesis by (simp add: parse_fallback aligned_rows_def)
    next
      case (Inr rows)
      then obtain d where "csv_reader d ?lines = Inr rows"
        by (auto simp: sniffed_rows_def split: sum.splits)
      from csv_reader_length_le [OF this] False Inr show ?thesis
        by (simp add: parse_text_to_rows_def)
    qed
  qed
qed

lemma parse_unquoted_length:
  assumes "sniff (sample_of (retained_lines text)) (concat CANDIDATE_DELIMS) = Inr d"
      and "\<forall>ln\<in>set (retained_lines text). quotechar d \<notin> set ln"
  shows "length (parse_text_to_rows sniff text) = length (retained_lines text)"
proof -
  let ?lines = "retained_lines text"
  have nl: "\<forall>ln\<in>set ?lines. quotechar d \<notin> set ln \<and> CR \<notin> set ln \<and> LF \<notin> set ln"
    using assms(2) retained_lines_no_linebreak linebreak_CR_LF by blast
  show ?thesis
  proof (cases "?lines = [] \<or> TAB \<in> set (sample_of ?lines)")
    case True
    then show ?thesis
      by (auto simp: parse_text_to_rows_def Let_def tab_rows_def)
  next
    case False
    show ?thesis
    proof (cases "sniffed_rows sniff ?lines")
      case (Inl e)
      with False show ?thesis by (simp add: parse_fallback aligned_rows_def)
    next
      case (Inr rows)
      with assms(1) have "read_rows d parse_reset ?lines = Inr rows"
        by (simp add: sniffed_rows_def csv_reader_def)
      from read_rows_unquoted_length [OF this nl] False Inr show ?thesis
        by (simp add: parse_text_to_rows_def)
    qed
  qed
qed

text \<open>
  Claim C2, as amended. The number of rows never exceeds the number of retained lines
  (so blank input gives no row). It is that number when the tab strategy produces the
  result, when the sniffed strategy fails and the aligned fallback produces it, and when
  the sniffer accepts a dialect whose quote character occurs in no retained line.
\<close>

theorem row_count_and_retained_lines:
  "length (parse_text_to_rows sniff text) \<le> length (retained_lines text)
   \<and> (TAB \<in> set (sample_of (retained_lines text)) \<longrightarrow>
        length (parse_text_to_rows sniff text) = length (retained_lines text))
   \<and> ((\<exists>e. sniffed_rows sniff (retained_lines text) = Inl e) \<longrightarrow>
        length (parse_text_to_rows sniff text) = length (retained_lines text))
   \<and> ((\<exists>d. sniff (sample_of (retained_lines text)) (concat CANDIDATE_DELIMS) = Inr d
            \<and> (\<forall>ln\<in>set (retained_lines text). quotechar d \<notin> set ln)) \<longrightarrow>
        length (parse_text_to_rows sniff text) = length (retained_lines text))"
proof (intro conjI impI)
  show "length (parse_text_to_rows sniff text) \<le> length (retained_lines text)"
    by (rule parse_length_le)
next
  assume "TAB \<in> set (sample_of (retained_lines text))"
  then show "length (parse_text_to_rows sniff text) = length (retained_lines text)"
    by (simp add: parse_tab tab_rows_def)
next
  assume "\<exists>e. sniffed_rows sniff (retained_lines text) = Inl e"
  then obtain e where e: "sniffed_rows sniff (retained_lines text) = Inl e" ..
  show "length (parse_text_to_rows sniff text) = length (retained_lines text)"
  proof (cases "TAB \<in> set (sample_of (retained_lines text))")
    case True
    then show ?thesis by (simp add: parse_tab tab_rows_def)
  next
    case False
    from parse_fallback [OF False e] show ?thesis by (simp add: aligned_rows_def)
  qed
next
  assume "\<exists>d. sniff (sample_of (retained_lines text)) (concat CANDIDATE_DELIMS) = Inr d
            \<and> (\<forall>ln\<in>set (retained_lines text). quotechar d \<notin> set ln)"
  then show "length (parse_text_to_rows sniff text) = length (retained_lines text)"
    using parse_unquoted_length by blast
qed

text \<open>
  Three inputs: \<open>x<TAB>y<LF>1<TAB>2\<close> for the tab strategy, \<open>hi you<LF>ok\<close> with a
  sniffer that gives up, and \<open>a,b<LF>c,d\<close> read with the comma dialect.
\<close>

theorem row_count_and_retained_lines_witness:
  "TAB \<in> set (sample_of (retained_lines [120, 9, 121, 10, 49, 9, 50]))
   \<and> length (parse_text_to_rows sniff_comma [120, 9, 121, 10, 49, 9, 50]) = 2
   \<and> sniffed_rows (\<lambda>sample delims. Inl Could_Not_Determine_Delimiter)
        (retained_lines [104, 105, 32, 121, 111, 117, 10, 111, 107])
       = Inl Could_Not_Determine_Delimiter
   \<and> length (parse_text_to_rows (\<lambda>sample delims. Inl Could_Not_Determine_Delimiter)
        [104, 105, 32, 121, 111, 117, 10, 111, 107]) = 2
   \<and> sniff_comma (sample_of (retained_lines [97, 44, 98, 10, 99, 44, 100])) (concat CANDIDATE_DELIMS)
       = Inr comma_dialect
   \<and> list_all (\<lambda>ln. quotechar comma_dialect \<notin> set ln) (retained_lines [97, 44, 98, 10, 99, 44, 100])
   \<and> length (parse_text_to_rows sniff_comma [97, 44, 98, 10, 99, 44, 100]) = 2"
proof -
  have l1: "retained_lines [120, 9, 121, 10, 49, 9, 50] = [[120, 9, 121], [49, 9, 50]]"
    by (simp add: lines_eval)
  have l2: "retained_lines [104, 105, 32, 121, 111, 117, 10, 111, 107]
      = [[104, 105, 32, 121, 111, 117], [111, 107]]"
    by (simp add: lines_eval)
  have l3: "retained_lines [97, 44, 98, 10, 99, 44, 100] = [[97, 44, 98], [99, 44, 100]]"
    by (simp add: lines_eval)
  have q: "\<forall>ln\<in>set (retained_lines [97, 44, 98, 10, 99, 44, 100]). quotechar comma_dialect \<notin> set ln"
    by (simp add: l3 comma_dialect_def DQUOTE_def)
  show ?thesis
    using row_count_and_retained_lines [of sniff_comma "[120, 9, 121, 10, 49, 9, 50]"]
      row_count_and_retained_lines [of "\<lambda>sample delims. Inl Could_Not_Determine_Delimiter"
        "[104, 105, 32, 121, 111, 117, 10, 111, 107]"]
      row_count_and_retained_lines [of sniff_comma "[97, 44, 98, 10, 99, 44, 100]"] q
    by (simp add: l1 l2 l3 sample_of_def TAB_def sniffed_rows_def sniff_comma_def list_all_iff)
qed

text \<open>
  Claim C2 as stated fails: the input \<open>a,"b<LF>c",d<LF>1,2,3\<close> has three non-blank lines,
  the sniffer accepts the comma with the double quote as quote character, and the reader
  returns two rows, the first being \<open>a\<close>, \<open>bc\<close>, \<open>d\<close>.
\<close>

theorem open_quote_joins_lines_counterexample:
  "length (retained_lines [97, 44, 34, 98, 10, 99, 34, 44, 100, 10, 49, 44, 50, 44, 51]) = 3
   \<and> parse_text_to_rows sniff_comma [97, 44, 34, 98, 10, 99, 34, 44, 100, 10, 49, 44, 50, 44, 51]
     = [[[97], [98, 99], [100]], [[49], [50], [51]]]"
proof -
  have l: "retained_lines [97, 44, 34, 98, 10, 99, 34, 44, 100, 10, 49, 44, 50, 44, 51]
      = [[97, 44, 34, 98], [99, 34, 44, 100], [49, 44, 50, 44, 51]]"
    by (simp add: lines_eval)
  have r: "csv_reader comma_dialect [[97, 44, 34, 98], [99, 34, 44, 100], [49, 44, 50, 44, 51]]
      = Inr [[[97], [98, 99], [100]], [[49], [50], [51]]]"
    by (simp add: reader_eval)
  show ?thesis
    by (simp add: parse_text_to_rows_def l sample_of_def sniffed_rows_def sniff_comma_def r
        TAB_def LF_def)
qed

section \<open>The reader on lines without quote characters\<close>

lemma split_from_cur:
  "split_from sep cur s = (cur @ hd (split_from sep [] s)) # tl (split_from sep [] s)"
proof (induction s arbitrary: cur)
  case Nil
  show ?case by simp
next
  case (Cons c cs)
  show ?case
  proof (cases "c = sep")
    case True
    then show ?thesis by simp
  next
    case False
    with Cons [of "cur @ [c]"] Cons [of "[c]"] show ?thesis by simp
  qed
qed

lemma split_Nil: "split sep [] = [[]]"
  by (simp add: split_def)

lemma split_Cons:
  "split sep (c # cs) =
     (if c = sep then [] # split sep cs else (c # hd (split sep cs)) # tl (split sep cs))"
  using split_from_cur [of sep "[c]" cs] by (simp add: split_def)

lemma split_not_Nil: "split sep s \<noteq> []"
  by (simp add: split_def split_from_not_Nil)

lemma length_split: "length (split sep s) = count_list s sep + 1"
proof (induction s)
  case Nil
  show ?case by (simp add: split_Nil)
next
  case (Cons c cs)
  have "length (tl (split sep cs)) = count_list cs sep"
    using Cons by simp
  with Cons show ?case by (simp add: split_Cons)
qed

lemma skip_spaces_Nil: "skip_spaces d [] = []"
  by (simp add: skip_spaces_def)

lemma skip_spaces_SPACE: "skipinitialspace d \<Longrightarrow> skip_spaces d (SPACE # cell) = skip_spaces d cell"
  by (simp add: skip_spaces_def)

lemma skip_spaces_other:
  "\<not> (skipinitialspace d \<and> c = SPACE) \<Longrightarrow> skip_spaces d (c # cell) = c # cell"
  by (auto simp: skip_spaces_def)

lemma pc_in_field_delim:
  "state r = IN_FIELD \<Longrightarrow> c \<noteq> CR \<Longrightarrow> c \<noteq> LF \<Longrightarrow> c = delimiter d \<Longrightarrow>
   parse_process_char d r (Some c) = Inr \<lparr>state = START_FIELD, rfields = rfields r @ [field r], field = []\<rparr>"
  by (simp add: parse_process_char_def is_newline_def parse_save_field_def)

lemma pc_in_field_char:
  "state r = IN_FIELD \<Longrightarrow> c \<noteq> CR \<Longrightarrow> c \<noteq> LF \<Longrightarrow> c \<noteq> delimiter d \<Longrightarrow>
   length (field r) < field_limit \<Longrightarrow>
   parse_process_char d r (Some c) = Inr \<lparr>state = IN_FIELD, rfields = rfields r, field = field r @ [c]\<rparr>"
  by (simp add: parse_process_char_def is_newline_def parse_add_char_def)

lemma pc_in_field_eol:
  "state r = IN_FIELD \<Longrightarrow>
   parse_process_char d r None = Inr \<lparr>state = START_RECORD, rfields = rfields r @ [field r], field = []\<rparr>"
  by (simp add: parse_process_char_def parse_save_field_def after_eol_def)

lemma pc_start_field_eol:
  "state r = START_FIELD \<Longrightarrow>
   parse_process_char d r None = Inr \<lparr>state = START_RECORD, rfields = rfields r @ [field r], field = []\<rparr>"
  by (simp add: parse_process_char_def start_field_def parse_save_field_def after_eol_def)

lemma sf_space:
  "c \<noteq> CR \<Longrightarrow> c \<noteq> LF \<Longrightarrow> c \<noteq> quotechar d \<Longrightarrow> c = SPACE \<Longrightarrow> skipinitialspace d \<Longrightarrow>
   start_field d r (Some c) = Inr r"
  by (simp add: start_field_def is_newline_def)

lemma sf_delim:
  "c \<noteq> CR \<Longrightarrow> c \<noteq> LF \<Longrightarrow> c \<noteq> quotechar d \<Longrightarrow> \<not> (c = SPACE \<and> skipinitialspace d) \<Longrightarrow>
   c = delimiter d \<Longrightarrow>
   start_field d r (Some c) = Inr (r\<lparr>rfields := rfields r @ [field r], field := []\<rparr>)"
  by (auto simp: start_field_def is_newline_def parse_save_field_def)

lemma sf_char:
  "c \<noteq> CR \<Longrightarrow> c \<noteq> LF \<Longrightarrow> c \<noteq> quotechar d \<Longrightarrow> \<not> (c = SPACE \<and> skipinitialspace d) \<Longrightarrow>
   c \<noteq> delimiter d \<Longrightarrow> length (field r) < field_limit \<Longrightarrow>
   start_field d r (Some c) = Inr (r\<lparr>field := field r @ [c], state := IN_FIELD\<rparr>)"
  by (auto simp: start_field_def is_newline_def parse_add_char_def set_state_def)

lemma pc_start_field: "state r = START_FIELD \<Longrightarrow> parse_process_char d r c = start_field d r c"
  by (simp add: parse_process_char_def)

lemma pc_start_record:
  "state r = START_RECORD \<Longrightarrow> c \<noteq> CR \<Longrightarrow> c \<noteq> LF \<Longrightarrow>
   parse_process_char d r (Some c) = start_field d (r\<lparr>state := START_FIELD\<rparr>) (Some c)"
  by (simp add: parse_process_char_def is_newline_def)

lemma process_line_unquoted:
  assumes nsp: "\<not> (skipinitialspace d \<and> delimiter d = SPACE)"
  shows "quotechar d \<notin> set s \<Longrightarrow> CR \<notin> set s \<Longrightarrow> LF \<notin> set s \<Longrightarrow>
     (state r = IN_FIELD \<longrightarrow> length (field r) + length s \<le> field_limit \<longrightarrow>
        process_line d r s =
          Inr \<lparr>state = START_RECORD,
               rfields = rfields r @ (field r @ hd (split (delimiter d) s))
                           # map (skip_spaces d) (tl (split (delimiter d) s)),
               field = []\<rparr>)
   \<and> (state r = START_FIELD \<longrightarrow> field r = [] \<longrightarrow> length s \<le> field_limit \<longrightarrow>
        process_line d r s =
          Inr \<lparr>state = START_RECORD,
               rfields = rfields r @ map (skip_spaces d) (split (delimiter d) s),
               field = []\<rparr>)"
proof (induction s arbitrary: r)
  case Nil
  show ?case
    by (simp add: pc_in_field_eol pc_start_field_eol split_Nil skip_spaces_Nil)
next
  case (Cons c cs)
  let ?D = "delimiter d"
  let ?X = "split ?D cs"
  from Cons.prems have c: "c \<noteq> quotechar d" "c \<noteq> CR" "c \<noteq> LF"
    and cs: "quotechar d \<notin> set cs" "CR \<notin> set cs" "LF \<notin> set cs"
    by auto
  note IH = Cons.IH [OF cs]
  have X: "?X = hd ?X # tl ?X"
    using split_not_Nil [of ?D cs] by simp
  have in_field: "process_line d r (c # cs) =
          Inr \<lparr>state = START_RECORD,
               rfields = rfields r @ (field r @ hd (split ?D (c # cs)))
                           # map (skip_spaces d) (tl (split ?D (c # cs))),
               field = []\<rparr>"
    if st: "state r = IN_FIELD" and len: "length (field r) + length (c # cs) \<le> field_limit"
  proof (cases "c = ?D")
    case True
    let ?r1 = "\<lparr>state = START_FIELD, rfields = rfields r @ [field r], field = []\<rparr>"
    have 1: "parse_process_char d r (Some c) = Inr ?r1"
      using st c True by (simp add: pc_in_field_delim)
    have "process_line d ?r1 cs =
        Inr \<lparr>state = START_RECORD, rfields = rfields ?r1 @ map (skip_spaces d) ?X, field = []\<rparr>"
      using IH [of ?r1] len by simp
    with 1 True show ?thesis
      by (simp add: split_Cons)
  next
    case False
    let ?r1 = "\<lparr>state = IN_FIELD, rfields = rfields r, field = field r @ [c]\<rparr>"
    have 1: "parse_process_char d r (Some c) = Inr ?r1"
      using st c False len by (simp add: pc_in_field_char)
    have "process_line d ?r1 cs =
        Inr \<lparr>state = START_RECORD,
             rfields = rfields ?r1 @ (field ?r1 @ hd ?X) # map (skip_spaces d) (tl ?X),
             field = []\<rparr>"
      using IH [of ?r1] len by simp
    with 1 False show ?thesis
      by (simp add: split_Cons)
  qed
  have start: "process_line d r (c # cs) =
          Inr \<lparr>state = START_RECORD,
               rfields = rfields r @ map (skip_spaces d) (split ?D (c # cs)),
               field = []\<rparr>"
    if st: "state r = START_FIELD" and f: "field r = []" and len: "length (c # cs) \<le> field_limit"
  proof -
    have pc: "parse_process_char d r (Some c) = start_field d r (Some c)"
      using st by (rule pc_start_field)
    consider (space) "c = SPACE" "skipinitialspace d"
      | (delim) "\<not> (c = SPACE \<and> skipinitialspace d)" "c = ?D"
      | (char) "\<not> (c = SPACE \<and> skipinitialspace d)" "c \<noteq> ?D"
      by blast
    then show ?thesis
    proof cases
      case space
      have 1: "parse_process_char d r (Some c) = Inr r"
        unfolding pc using c space by (simp add: sf_space)
      have 2: "process_line d r cs =
          Inr \<lparr>state = START_RECORD, rfields = rfields r @ map (skip_spaces d) ?X, field = []\<rparr>"
        using IH [of r] st f len by simp
      from space nsp have "c \<noteq> ?D" by auto
      then have "map (skip_spaces d) (split ?D (c # cs))
          = skip_spaces d (c # hd ?X) # map (skip_spaces d) (tl ?X)"
        by (simp add: split_Cons)
      also have "\<dots> = skip_spaces d (hd ?X) # map (skip_spaces d) (tl ?X)"
        using space by (simp add: skip_spaces_SPACE)
      also have "\<dots> = map (skip_spaces d) ?X"
        by (subst (3) X) simp
      finally show ?thesis using 1 2 by simp
    next
      case delim
      let ?r1 = "r\<lparr>rfields := rfields r @ [field r], field := []\<rparr>"
      have 1: "parse_process_char d r (Some c) = Inr ?r1"
        unfolding pc using c delim by (simp add: sf_delim)
      have "process_line d ?r1 cs =
          Inr \<lparr>state = START_RECORD, rfields = rfields ?r1 @ map (skip_spaces d) ?X, field = []\<rparr>"
        using IH [of ?r1] st len by simp
      with 1 delim f show ?thesis
        by (simp add: split_Cons skip_spaces_Nil)
    next
      case char
      let ?r1 = "r\<lparr>field := field r @ [c], state := IN_FIELD\<rparr>"
      from len have "0 < field_limit" by simp
      then have 1: "parse_process_char d r (Some c) = Inr ?r1"
        unfolding pc using c char f by (simp add: sf_char)
      have "process_line d ?r1 cs =
          Inr \<lparr>state = START_RECORD,
               rfields = rfields ?r1 @ (field ?r1 @ hd ?X) # map (skip_spaces d) (tl ?X),
               field = []\<rparr>"
        using IH [of ?r1] f len by simp
      moreover have "skip_spaces d (c # hd ?X) = c # hd ?X"
        using char by (auto simp: skip_spaces_def)
      ultimately show ?thesis
        using 1 char f by (simp add: split_Cons)
    qed
  qed
  from in_field start show ?case by blast
qed

lemma process_line_reset_unquoted:
  assumes "\<not> (skipinitialspace d \<and> delimiter d = SPACE)"
      and "quotechar d \<notin> set ln" "CR \<notin> set ln" "LF \<notin> set ln"
      and "ln \<noteq> []" "length ln \<le> field_limit"
  shows "process_line d parse_reset ln =
          Inr \<lparr>state = START_RECORD,
               rfields = map (skip_spaces d) (split (delimiter d) ln), field = []\<rparr>"
proof -
  let ?r = "parse_reset\<lparr>state := START_FIELD\<rparr>"
  from assms(5) obtain c cs where ln: "ln = c # cs" by (cases ln) auto
  with assms(3,4) have "parse_process_char d parse_reset (Some c) = parse_process_char d ?r (Some c)"
    by (simp add: pc_start_record pc_start_field parse_reset_def)
  then have "process_line d parse_reset ln = process_line d ?r ln"
    by (simp add: ln)
  also have "\<dots> = Inr \<lparr>state = START_RECORD,
               rfields = rfields ?r @ map (skip_spaces d) (split (delimiter d) ln), field = []\<rparr>"
    using process_line_unquoted [OF assms(1-4), of ?r] assms(6)
    by (simp add: parse_reset_def)
  finally show ?thesis by (simp add: parse_reset_def)
qed

lemma read_rows_unquoted:
  assumes "\<not> (skipinitialspace d \<and> delimiter d = SPACE)"
      and "\<forall>ln\<in>set lns. quotechar d \<notin> set ln \<and> CR \<notin> set ln \<and> LF \<notin> set ln
              \<and> ln \<noteq> [] \<and> length ln \<le> field_limit"
  shows "read_rows d parse_reset lns
       = Inr (map (\<lambda>ln. map (skip_spaces d) (split (delimiter d) ln)) lns)"
  using assms(2)
proof (induction lns)
  case Nil
  show ?case by (simp add: parse_reset_def)
next
  case (Cons ln lns)
  then have "process_line d parse_reset ln =
          Inr \<lparr>state = START_RECORD,
               rfields = map (skip_spaces d) (split (delimiter d) ln), field = []\<rparr>"
    by (intro process_line_reset_unquoted [OF assms(1)]) auto
  with Cons show ?case by simp
qed

section \<open>The sniffed strategy\<close>

lemma candidate_not_space: "[D] \<in> set CANDIDATE_DELIMS \<Longrightarrow> \<not> isspace D"
  by (auto simp: CANDIDATE_DELIMS_def isspace_def COMMA_def SEMICOLON_def PIPE_def)

lemma isspace_SPACE: "isspace SPACE"
  by (simp add: isspace_def SPACE_def)

lemma strip_not_Nil: "strip s \<noteq> [] \<Longrightarrow> s \<noteq> []"
  by (auto simp: strip_Nil)

lemma parse_unquoted:
  assumes tab: "TAB \<notin> set (sample_of (retained_lines text))"
      and sn: "sniff (sample_of (retained_lines text)) (concat CANDIDATE_DELIMS) = Inr d"
      and cand: "[delimiter d] \<in> set CANDIDATE_DELIMS"
      and lines: "\<forall>ln\<in>set (retained_lines text). quotechar d \<notin> set ln \<and> length ln \<le> field_limit"
  shows "parse_text_to_rows sniff text
       = map (\<lambda>ln. map (skip_spaces d) (split (delimiter d) ln)) (retained_lines text)"
proof -
  let ?lines = "retained_lines text"
  from candidate_not_space [OF cand] isspace_SPACE
  have nsp: "\<not> (skipinitialspace d \<and> delimiter d = SPACE)" by auto
  have ok: "\<forall>ln\<in>set ?lines. quotechar d \<notin> set ln \<and> CR \<notin> set ln \<and> LF \<notin> set ln
              \<and> ln \<noteq> [] \<and> length ln \<le> field_limit"
    using lines retained_lines_no_linebreak linebreak_CR_LF retained_lines_not_blank strip_not_Nil
    by blast
  have "sniffed_rows sniff ?lines
      = Inr (map (\<lambda>ln. map (skip_spaces d) (split (delimiter d) ln)) ?lines)"
    using read_rows_unquoted [OF nsp ok] sn by (simp add: sniffed_rows_def csv_reader_def)
  with tab show ?thesis
    by (simp add: parse_text_to_rows_def Let_def)
qed

text \<open>
  Claim C5, as amended. Let there be no tab in the sample, and let \<open>D\<close>, one of comma,
  semicolon and pipe, occur the same non-zero number \<open>n\<close> of times on every retained
  line. If moreover the sniffer accepts a dialect with delimiter \<open>D\<close>, and no retained line
  contains the dialect's quote character or is longer than the reader's field limit, then
  the result has one row per retained line, the row of a line has one cell more than the
  line has delimiters, and so every row has \<open>n + 1\<close> cells.
\<close>

theorem sniffed_row_has_one_cell_more_than_delimiters:
  assumes "TAB \<notin> set (sample_of (retained_lines text))"
      and "[D] \<in> set CANDIDATE_DELIMS"
      and "0 < n"
      and "\<forall>ln\<in>set (retained_lines text). count_list ln D = n"
      and "sniff (sample_of (retained_lines text)) (concat CANDIDATE_DELIMS) = Inr d"
      and "delimiter d = D"
      and "\<forall>ln\<in>set (retained_lines text). quotechar d \<notin> set ln \<and> length ln \<le> field_limit"
  shows "length (parse_text_to_rows sniff text) = length (retained_lines text)
       \<and> (\<forall>i < length (retained_lines text).
            length (parse_text_to_rows sniff text ! i) = count_list (retained_lines text ! i) D + 1)
       \<and> (\<forall>row\<in>set (parse_text_to_rows sniff text). length row = n + 1)"
proof -
  from assms(2,6) have cand: "[delimiter d] \<in> set CANDIDATE_DELIMS" by simp
  have p: "parse_text_to_rows sniff text
      = map (\<lambda>ln. map (skip_spaces d) (split D ln)) (retained_lines text)"
    using parse_unquoted [of "text" sniff d, OF assms(1) assms(5) cand assms(7)] assms(6)
    by simp
  have "length row = n + 1" if "row \<in> set (parse_text_to_rows sniff text)" for row
  proof -
    from that obtain ln where "ln \<in> set (retained_lines text)"
      and "row = map (skip_spaces d) (split D ln)"
      unfolding p by auto
    with assms(4) show ?thesis by (simp add: length_split)
  qed
  then show ?thesis
    by (simp add: p length_split)
qed

text \<open>
  The input is \<open>a,b,c<LF>1,2,3<LF>\<close>, with two commas on each line, read with the comma
  dialect: two rows of three cells.
\<close>

theorem sniffed_row_has_one_cell_more_than_delimiters_witness:
  "TAB \<notin> set (sample_of (retained_lines [97, 44, 98, 44, 99, 10, 49, 44, 50, 44, 51, 10]))
   \<and> [COMMA] \<in> set CANDIDATE_DELIMS
   \<and> list_all (\<lambda>ln. count_list ln COMMA = 2)
        (retained_lines [97, 44, 98, 44, 99, 10, 49, 44, 50, 44, 51, 10])
   \<and> sniff_comma (sample_of (retained_lines [97, 44, 98, 44, 99, 10, 49, 44, 50, 44, 51, 10]))
        (concat CANDIDATE_DELIMS) = Inr comma_dialect
   \<and> delimiter comma_dialect = COMMA
   \<and> list_all (\<lambda>ln. quotechar comma_dialect \<notin> set ln \<and> length ln \<le> field_limit)
        (retained_lines [97, 44, 98, 44, 99, 10, 49, 44, 50, 44, 51, 10])
   \<and> length (parse_text_to_rows sniff_comma [97, 44, 98, 44, 99, 10, 49, 44, 50, 44, 51, 10]) = 2
   \<and> list_all (\<lambda>row. length row = 3)
        (parse_text_to_rows sniff_comma [97, 44, 98, 44, 99, 10, 49, 44, 50, 44, 51, 10])"
proof -
  let ?t = "[97, 44, 98, 44, 99, 10, 49, 44, 50, 44, 51, 10] :: pystr"
  have l: "retained_lines ?t = [[97, 44, 98, 44, 99], [49, 44, 50, 44, 51]]"
    by (simp add: lines_eval)
  have 1: "TAB \<notin> set (sample_of (retained_lines ?t))"
    by (simp add: l sample_of_def TAB_def LF_def)
  have 2: "[COMMA] \<in> set CANDIDATE_DELIMS"
    by (simp add: CANDIDATE_DELIMS_def)
  have 3: "(0::nat) < 2" by simp
  have 4: "\<forall>ln\<in>set (retained_lines ?t). count_list ln COMMA = 2"
    by (simp add: l COMMA_def)
  have 5: "sniff_comma (sample_of (retained_lines ?t)) (concat CANDIDATE_DELIMS) = Inr comma_dialect"
    by (simp add: sniff_comma_def)
  have 6: "delimiter comma_dialect = COMMA"
    by (simp add: comma_dialect_def)
  have 7: "\<forall>ln\<in>set (retained_lines ?t). quotechar comma_dialect \<notin> set ln \<and> length ln \<le> field_limit"
    by (simp add: l comma_dialect_def DQUOTE_def field_limit_def)
  from sniffed_row_has_one_cell_more_than_delimiters
    [of ?t COMMA 2 sniff_comma comma_dialect, OF 1 2 3 4 5 6 7]
  have "length (parse_text_to_rows sniff_comma ?t) = 2"
    and "\<forall>row\<in>set (parse_text_to_rows sniff_comma ?t). length row = 3"
    by (simp_all add: l)
  with 1 2 4 5 6 7 show ?thesis
    by (simp add: list_all_iff)
qed

text \<open>
  Claim C5 as stated fails twice. In the input \<open>"a,b",c<LF>"d,e",f\<close> the comma occurs
  twice on each of the two lines, the semicolon and the pipe do not occur and there is no
  tab; the sniffer accepts the comma with the double quote as quote character, and each
  row has two cells, not three. In the input of ten lines \<open>a,b;c\<close> and an eleventh line
  \<open>a;c\<close> there is no quote character and no tab, and the semicolon is the only candidate
  that occurs the same number of times, once, on every line; the sniffer still accepts
  the comma, and the last row is the one cell \<open>a;c\<close>, not two cells.
\<close>

theorem delimiter_count_does_not_fix_the_cells_counterexample:
  "TAB \<notin> set (sample_of (retained_lines
      [34, 97, 44, 98, 34, 44, 99, 10, 34, 100, 44, 101, 34, 44, 102]))
   \<and> map (\<lambda>ln. count_list ln COMMA) (retained_lines
      [34, 97, 44, 98, 34, 44, 99, 10, 34, 100, 44, 101, 34, 44, 102]) = [2, 2]
   \<and> parse_text_to_rows sniff_comma [34, 97, 44, 98, 34, 44, 99, 10, 34, 100, 44, 101, 34, 44, 102]
     = [[[97, 44, 98], [99]], [[100, 44, 101], [102]]]
   \<and> TAB \<notin> set (sample_of (retained_lines eleven_lines))
   \<and> DQUOTE \<notin> set eleven_lines
   \<and> map (\<lambda>ln. count_list ln SEMICOLON) (retained_lines eleven_lines)
     = [1, 1, 1, 1, 1, 1, 1, 1, 1, 1, 1]
   \<and> map (\<lambda>ln. count_list ln COMMA) (retained_lines eleven_lines)
     = [1, 1, 1, 1, 1, 1, 1, 1, 1, 1, 0]
   \<and> map (\<lambda>ln. count_list ln PIPE) (retained_lines eleven_lines)
     = [0, 0, 0, 0, 0, 0, 0, 0, 0, 0, 0]
   \<and> map length (parse_text_to_rows sniff_comma eleven_lines)
     = [2, 2, 2, 2, 2, 2, 2, 2, 2, 2, 1]
   \<and> parse_text_to_rows sniff_comma eleven_lines ! 10 = [[97, 59, 99]]"
proof -
  have l: "retained_lines [34, 97, 44, 98, 34, 44, 99, 10, 34, 100, 44, 101, 34, 44, 102]
      = [[34, 97, 44, 98, 34, 44, 99], [34, 100, 44, 101, 34, 44, 102]]"
    by (simp add: lines_eval)
  have r: "csv_reader comma_dialect [[34, 97, 44, 98, 34, 44, 99], [34, 100, 44, 101, 34, 44, 102]]
      = Inr [[[97, 44, 98], [99]], [[100, 44, 101], [102]]]"
    by (simp add: reader_eval)
  have a: "TAB \<notin> set (sample_of (retained_lines
      [34, 97, 44, 98, 34, 44, 99, 10, 34, 100, 44, 101, 34, 44, 102]))"
    "map (\<lambda>ln. count_list ln COMMA) (retained_lines
      [34, 97, 44, 98, 34, 44, 99, 10, 34, 100, 44, 101, 34, 44, 102]) = [2, 2]"
    "parse_text_to_rows sniff_comma [34, 97, 44, 98, 34, 44, 99, 10, 34, 100, 44, 101, 34, 44, 102]
     = [[[97, 44, 98], [99]], [[100, 44, 101], [102]]]"
    by (simp_all add: parse_text_to_rows_def l sample_of_def sniffed_rows_def sniff_comma_def r
        TAB_def LF_def COMMA_def)
  have l': "retained_lines eleven_lines = 
     [[97, 44, 98, 59, 99],
      [97, 44, 98, 59, 99],
      [97, 44, 98, 59, 99],
      [97, 44, 98, 59, 99],
      [97, 44, 98, 59, 99],
      [97, 44, 98, 59, 99],
      [97, 44, 98, 59, 99],
      [97, 44, 98, 59, 99],
      [97, 44, 98, 59, 99],
      [97, 44, 98, 59, 99],
      [97, 59, 99]]"
    by (simp add: eleven_lines_def lines_eval)
  have r': "csv_reader comma_dialect (
     [[97, 44, 98, 59, 99],
      [97, 44, 98, 59, 99],
      [97, 44, 98, 59, 99],
      [97, 44, 98, 59, 99],
      [97, 44, 98, 59, 99],
      [97, 44, 98, 59, 99],
      [97, 44, 98, 59, 99],
      [97, 44, 98, 59, 99],
      [97, 44, 98, 59, 99],
      [97, 44, 98, 59, 99],
      [97, 59, 99]])
      = Inr [[[97], [98, 59, 99]], [[97], [98, 59, 99]], [[97], [98, 59, 99]],
             [[97], [98, 59, 99]], [[97], [98, 59, 99]], [[97], [98, 59, 99]],
             [[97], [98, 59, 99]], [[97], [98, 59, 99]], [[97], [98, 59, 99]],
             [[97], [98, 59, 99]], [[97, 59, 99]]]"
    by (simp add: reader_eval)
  have t': "TAB \<notin> set (sample_of (retained_lines eleven_lines))"
    by (simp add: l' sample_of_def TAB_def LF_def)
  have p': "parse_text_to_rows sniff_comma eleven_lines
      = [[[97], [98, 59, 99]], [[97], [98, 59, 99]], [[97], [98, 59, 99]],
         [[97], [98, 59, 99]], [[97], [98, 59, 99]], [[97], [98, 59, 99]],
         [[97], [98, 59, 99]], [[97], [98, 59, 99]], [[97], [98, 59, 99]],
         [[97], [98, 59, 99]], [[97, 59, 99]]]"
    using t' by (simp add: parse_text_to_rows_def l' sniffed_rows_def sniff_comma_def r')
  have q: "DQUOTE \<notin> set eleven_lines"
    by (simp add: eleven_lines_def DQUOTE_def)
  have b: "map (\<lambda>ln. count_list ln SEMICOLON) (retained_lines eleven_lines)
     = [1, 1, 1, 1, 1, 1, 1, 1, 1, 1, 1]"
    "map (\<lambda>ln. count_list ln COMMA) (retained_lines eleven_lines)
     = [1, 1, 1, 1, 1, 1, 1, 1, 1, 1, 0]"
    "map (\<lambda>ln. count_list ln PIPE) (retained_lines eleven_lines)
     = [0, 0, 0, 0, 0, 0, 0, 0, 0, 0, 0]"
    by (simp_all add: l' SEMICOLON_def COMMA_def PIPE_def)
  have c: "map length (parse_text_to_rows sniff_comma eleven_lines)
     = [2, 2, 2, 2, 2, 2, 2, 2, 2, 2, 1]"
    "parse_text_to_rows sniff_comma eleven_lines ! 10 = [[97, 59, 99]]"
    by (simp_all add: p')
  from a t' q b c show ?thesis by blast
qed

section \<open>Writing and reading back\<close>

lemma isspace_CR_LF: "isspace CR" "isspace LF"
  by (simp_all add: isspace_def CR_def LF_def)

lemma splitlines_from_char:
  "\<not> is_linebreak c \<Longrightarrow> splitlines_from cur (c # s) = splitlines_from (cur @ [c]) s"
  by (cases s) simp_all

lemma splitlines_from_append:
  "\<forall>c\<in>set ln. \<not> is_linebreak c \<Longrightarrow>
   splitlines_from cur (ln @ rest) = splitlines_from (cur @ ln) rest"
proof (induction ln arbitrary: cur)
  case Nil
  show ?case by simp
next
  case (Cons c cs)
  then have "splitlines_from cur ((c # cs) @ rest) = splitlines_from (cur @ [c]) (cs @ rest)"
    by (simp add: splitlines_from_char)
  also have "\<dots> = splitlines_from ((cur @ [c]) @ cs) rest"
    using Cons.prems by (intro Cons.IH) simp
  finally show ?case by simp
qed

lemma splitlines_from_crlf:
  "splitlines_from cur (CR # LF # rest) = cur # splitlines_from [] rest"
  by (simp add: linebreak_CR_LF)

lemma splitlines_join:
  "\<forall>ln\<in>set lines. ln \<noteq> [] \<and> (\<forall>c\<in>set ln. \<not> is_linebreak c) \<Longrightarrow>
   splitlines (join [CR, LF] lines) = lines"
proof (induction lines)
  case Nil
  show ?case by (simp add: splitlines_Nil)
next
  case (Cons ln lines)
  then have ln: "ln \<noteq> []" "\<forall>c\<in>set ln. \<not> is_linebreak c" by auto
  show ?case
  proof (cases "lines = []")
    case True
    have "splitlines_from [] (ln @ []) = splitlines_from ([] @ ln) []"
      using ln(2) by (rule splitlines_from_append)
    with ln(1) True show ?thesis by (simp add: splitlines_def)
  next
    case False
    have "splitlines_from [] (ln @ CR # LF # join [CR, LF] lines)
        = splitlines_from ([] @ ln) (CR # LF # join [CR, LF] lines)"
      using ln(2) by (rule splitlines_from_append)
    also have "\<dots> = ln # splitlines_from [] (join [CR, LF] lines)"
      by (simp only: append_Nil splitlines_from_crlf)
    also have "\<dots> = ln # lines"
      using Cons unfolding splitlines_def by simp
    finally show ?thesis
      using False by (simp add: splitlines_def join_Cons)
  qed
qed

lemma concat_terminated_lines:
  "lines \<noteq> [] \<Longrightarrow> concat (map (\<lambda>ln. ln @ [CR, LF]) lines) = join [CR, LF] lines @ [CR, LF]"
  by (induction lines) (auto simp: join_Cons)

lemma strip_append_space:
  assumes "s \<noteq> []" "trimmed s" "\<forall>c\<in>set w. isspace c"
  shows "strip (s @ w) = s"
proof -
  from assms(1,2) have h: "\<not> isspace (hd s)" and l: "\<not> isspace (last s)"
    by (auto simp: trimmed_def)
  from assms(1) obtain a as where s: "s = a # as" by (cases s) auto
  with h have 1: "dropWhile isspace (s @ w) = s @ w" by simp
  from assms(1) have r: "rev s = last s # rev (butlast s)"
    by (metis rev.simps(2) rev_rev_ident snoc_eq_iff_butlast)
  have "dropWhile isspace (rev w @ rev s) = dropWhile isspace (rev s)"
    using assms(3) by (intro dropWhile_append2) simp
  also have "\<dots> = rev s"
    unfolding r using l by simp
  finally have 2: "dropWhile isspace (rev (s @ w)) = rev s" by simp
  show ?thesis unfolding strip_def 1 2 by simp
qed

lemma join_trimmed:
  "\<forall>cell\<in>set row. trimmed cell \<Longrightarrow> \<not> isspace D \<Longrightarrow> trimmed (join [D] row)"
proof (induction row)
  case Nil
  show ?case by (simp add: trimmed_def)
next
  case (Cons x xs)
  show ?case
  proof (cases "xs = []")
    case True
    with Cons.prems show ?thesis by simp
  next
    case False
    from Cons have t: "trimmed x" "trimmed (join [D] xs)" by auto
    have j: "join [D] (x # xs) = x @ D # join [D] xs"
      using False by (simp add: join_Cons)
    have "\<not> isspace (hd (x @ D # join [D] xs))"
      using t(1) Cons.prems(2) by (cases x) (auto simp: trimmed_def)
    moreover have "\<not> isspace (last (x @ D # join [D] xs))"
      using t(2) Cons.prems(2) by (auto simp: trimmed_def)
    ultimately show ?thesis
      unfolding j by (simp add: trimmed_def)
  qed
qed

lemma join_lines_trimmed:
  "lines \<noteq> [] \<Longrightarrow> \<forall>ln\<in>set lines. ln \<noteq> [] \<and> trimmed ln \<Longrightarrow>
   join [CR, LF] lines \<noteq> [] \<and> trimmed (join [CR, LF] lines)"
proof (induction lines)
  case Nil
  then show ?case by simp
next
  case (Cons ln lines)
  show ?case
  proof (cases "lines = []")
    case True
    with Cons.prems show ?thesis by simp
  next
    case False
    with Cons have r: "join [CR, LF] lines \<noteq> []" "trimmed (join [CR, LF] lines)" by auto
    from Cons.prems have ln: "ln \<noteq> []" "trimmed ln" by auto
    have j: "join [CR, LF] (ln # lines) = ln @ CR # LF # join [CR, LF] lines"
      using False by (simp add: join_Cons)
    show ?thesis
      unfolding j using r ln by (cases ln) (auto simp: trimmed_def)
  qed
qed

lemma split_from_append:
  "D \<notin> set x \<Longrightarrow> split_from D cur (x @ rest) = split_from D (cur @ x) rest"
  by (induction x arbitrary: cur) auto

lemma split_join:
  "row \<noteq> [] \<Longrightarrow> \<forall>cell\<in>set row. D \<notin> set cell \<Longrightarrow> split D (join [D] row) = row"
proof (induction row)
  case Nil
  then show ?case by simp
next
  case (Cons x xs)
  then have x: "D \<notin> set x" by simp
  show ?case
  proof (cases "xs = []")
    case True
    with x show ?thesis by (simp add: split_def split_from_no_sep)
  next
    case False
    have "split_from D [] (x @ D # join [D] xs) = split_from D ([] @ x) (D # join [D] xs)"
      using x by (rule split_from_append)
    also have "\<dots> = x # split_from D [] (join [D] xs)" by simp
    also have "\<dots> = x # xs"
      using Cons False unfolding split_def by simp
    finally show ?thesis
      using False by (simp add: split_def join_Cons)
  qed
qed

lemma set_join: "set (join [D] row) \<subseteq> insert D (\<Union>(set ` set row))"
proof (induction row)
  case Nil
  show ?case by simp
next
  case (Cons x xs)
  then show ?case by (cases "xs = []") (auto simp: join_Cons)
qed

lemma candidate_not_linebreak: "[D] \<in> set CANDIDATE_DELIMS \<Longrightarrow> \<not> is_linebreak D"
  by (auto simp: CANDIDATE_DELIMS_def is_linebreak_def COMMA_def SEMICOLON_def PIPE_def)

lemma spec_cell_plain: "plain_cell D d cell \<Longrightarrow> spec_cell D cell = cell"
  using linebreak_CR_LF
  by (auto simp: plain_cell_def spec_cell_def list_ex_iff list_all_iff forces_quotes_def)

lemma spec_row_plain:
  assumes "row \<noteq> [[]]" "\<forall>cell\<in>set row. plain_cell D d cell"
  shows "spec_row D row = join [D] row @ [CR, LF]"
proof -
  have "map (spec_cell D) row = row"
    using assms(2) by (intro map_idI) (blast intro: spec_cell_plain)
  with assms(1) show ?thesis by (simp add: spec_row_def)
qed

lemma spec_text_plain:
  assumes "\<forall>row\<in>set rows. row \<noteq> [[]] \<and> (\<forall>cell\<in>set row. plain_cell D d cell)"
  shows "spec_text D rows = concat (map (\<lambda>ln. ln @ [CR, LF]) (map (join [D]) rows))"
proof -
  have h: "map (spec_row D) rows = map (\<lambda>row. join [D] row @ [CR, LF]) rows"
    using assms by (intro map_cong refl spec_row_plain) auto
  show ?thesis unfolding spec_text_def h by (simp add: comp_def)
qed

lemma retained_lines_written:
  assumes "\<forall>ln\<in>set lines. ln \<noteq> [] \<and> trimmed ln \<and> (\<forall>c\<in>set ln. \<not> is_linebreak c)"
  shows "retained_lines (concat (map (\<lambda>ln. ln @ [CR, LF]) lines)) = lines"
proof (cases "lines = []")
  case True
  then show ?thesis by (simp add: retained_lines_def strip_Nil splitlines_Nil)
next
  case False
  let ?J = "join [CR, LF] lines"
  from join_lines_trimmed [OF False] assms have J: "?J \<noteq> []" "trimmed ?J" by auto
  have "strip (?J @ [CR, LF]) = ?J"
    using J by (intro strip_append_space) (auto simp: isspace_CR_LF)
  then have 1: "strip (concat (map (\<lambda>ln. ln @ [CR, LF]) lines)) = ?J"
    by (simp add: concat_terminated_lines [OF False])
  have 2: "splitlines ?J = lines"
    using assms by (intro splitlines_join) auto
  have 3: "filter (\<lambda>ln. strip ln \<noteq> []) lines = lines"
    using assms by (intro filter_True) (auto simp: strip_trimmed)
  show ?thesis by (simp add: retained_lines_def 1 2 3)
qed

lemma skip_spaces_trimmed: "trimmed cell \<Longrightarrow> skip_spaces d cell = cell"
  using isspace_SPACE by (cases cell) (auto simp: skip_spaces_def trimmed_def)

lemma plain_line:
  assumes cand: "[D] \<in> set CANDIDATE_DELIMS" and q: "quotechar d \<noteq> D"
      and row: "row \<noteq> []" "row \<noteq> [[]]" "\<forall>cell\<in>set row. plain_cell D d cell"
  shows "join [D] row \<noteq> []" "trimmed (join [D] row)"
    "\<forall>c\<in>set (join [D] row). \<not> is_linebreak c" "quotechar d \<notin> set (join [D] row)"
    "map (skip_spaces d) (split D (join [D] row)) = row"
proof -
  show "join [D] row \<noteq> []"
    using row(1,2) by (simp add: join_Nil_iff)
  show "trimmed (join [D] row)"
    using row(3) candidate_not_space [OF cand] by (intro join_trimmed) (auto simp: plain_cell_def)
  show "\<forall>c\<in>set (join [D] row). \<not> is_linebreak c"
    using set_join [of D row] row(3) candidate_not_linebreak [OF cand]
    by (auto simp: plain_cell_def list_all_iff)
  show "quotechar d \<notin> set (join [D] row)"
    using set_join [of D row] row(3) q by (auto simp: plain_cell_def)
  have "split D (join [D] row) = row"
    using row(1,3) by (intro split_join) (auto simp: plain_cell_def)
  moreover have "map (skip_spaces d) row = row"
    using row(3) by (intro map_idI) (simp add: skip_spaces_trimmed plain_cell_def)
  ultimately show "map (skip_spaces d) (split D (join [D] row)) = row" by simp
qed

text \<open>
  Claim C6, as amended. Let \<open>D\<close> be the comma, the semicolon or the pipe, and let every
  row have at least one cell, not be a single empty cell, and consist of plain cells: no
  delimiter, no quote character of the writer or of the sniffed dialect, no line-break
  character, no whitespace at either end; let no written line be longer than the
  reader's field limit. If the written text has no tab in its sample and the sniffer
  accepts a dialect with delimiter \<open>D\<close> and another character as quote character, the
  detector gives back the rows.
\<close>

theorem write_then_parse_round_trip:
  assumes cand: "[D] \<in> set CANDIDATE_DELIMS"
      and wr: "written_text rows [D] = Inr text"
      and tab: "TAB \<notin> set (sample_of (retained_lines text))"
      and sn: "sniff (sample_of (retained_lines text)) (concat CANDIDATE_DELIMS) = Inr d"
      and del: "delimiter d = D" and q: "quotechar d \<noteq> D"
      and rows: "\<forall>row\<in>set rows. row \<noteq> [] \<and> row \<noteq> [[]] \<and> length (join [D] row) \<le> field_limit
                   \<and> (\<forall>cell\<in>set row. plain_cell D d cell)"
  shows "parse_text_to_rows sniff text = rows"
proof -
  let ?lines = "map (join [D]) rows"
  have line: "join [D] row \<noteq> []" "trimmed (join [D] row)"
    "\<forall>c\<in>set (join [D] row). \<not> is_linebreak c" "quotechar d \<notin> set (join [D] row)"
    "map (skip_spaces d) (split D (join [D] row)) = row" "length (join [D] row) \<le> field_limit"
    if "row \<in> set rows" for row
    using plain_line [OF cand q, of row] rows that by auto
  have "text = spec_text D rows"
    using wr by (simp add: written_text_spec)
  also have "\<dots> = concat (map (\<lambda>ln. ln @ [CR, LF]) ?lines)"
    using rows by (intro spec_text_plain) auto
  finally have written: "text = concat (map (\<lambda>ln. ln @ [CR, LF]) ?lines)" .
  have l: "retained_lines text = ?lines"
    unfolding written using line(1-3) by (intro retained_lines_written) auto
  have "parse_text_to_rows sniff text
      = map (\<lambda>ln. map (skip_spaces d) (split (delimiter d) ln)) (retained_lines text)"
  proof (rule parse_unquoted [of "text" sniff d, OF tab sn])
    show "[delimiter d] \<in> set CANDIDATE_DELIMS"
      using cand del by simp
    show "\<forall>ln\<in>set (retained_lines text). quotechar d \<notin> set ln \<and> length ln \<le> field_limit"
      unfolding l using line(4,6) by auto
  qed
  also have "\<dots> = map (\<lambda>row. map (skip_spaces d) (split D (join [D] row))) rows"
    by (simp add: l del comp_def)
  also have "\<dots> = rows"
    using line(5) by (intro map_idI) simp
  finally show ?thesis .
qed

text \<open>
  The rows are \<open>[a, b c]\<close> and \<open>["", d]\<close>, written with a comma as \<open>a,b c\<close> and \<open>,d\<close>,
  each ended by \<open>\r\n\<close>, and read with the comma dialect.
\<close>

theorem write_then_parse_round_trip_witness:
  "[COMMA] \<in> set CANDIDATE_DELIMS
   \<and> written_text [[[97], [98, 32, 99]], [[], [100]]] [COMMA]
       = Inr [97, 44, 98, 32, 99, 13, 10, 44, 100, 13, 10]
   \<and> TAB \<notin> set (sample_of (retained_lines [97, 44, 98, 32, 99, 13, 10, 44, 100, 13, 10]))
   \<and> sniff_comma (sample_of (retained_lines [97, 44, 98, 32, 99, 13, 10, 44, 100, 13, 10]))
        (concat CANDIDATE_DELIMS) = Inr comma_dialect
   \<and> delimiter comma_dialect = COMMA \<and> quotechar comma_dialect \<noteq> COMMA
   \<and> list_all (\<lambda>row. row \<noteq> [] \<and> row \<noteq> [[]] \<and> length (join [COMMA] row) \<le> field_limit
                 \<and> list_all (plain_cell COMMA comma_dialect) row)
        [[[97], [98, 32, 99]], [[], [100]]]
   \<and> parse_text_to_rows sniff_comma [97, 44, 98, 32, 99, 13, 10, 44, 100, 13, 10]
       = [[[97], [98, 32, 99]], [[], [100]]]"
proof -
  let ?rows = "[[[97], [98, 32, 99]], [[], [100]]] :: pystr list list"
  let ?t = "[97, 44, 98, 32, 99, 13, 10, 44, 100, 13, 10] :: pystr"
  have 1: "[COMMA] \<in> set CANDIDATE_DELIMS"
    by (simp add: CANDIDATE_DELIMS_def)
  have 2: "written_text ?rows [COMMA] = Inr ?t"
    by (simp add: written_text_spec spec_text_def spec_row_def spec_cell_def forces_quotes_def
        COMMA_def DQUOTE_def CR_def LF_def)
  have l: "retained_lines ?t = [[97, 44, 98, 32, 99], [44, 100]]"
    by (simp add: lines_eval)
  have 3: "TAB \<notin> set (sample_of (retained_lines ?t))"
    by (simp add: l sample_of_def TAB_def LF_def)
  have 4: "sniff_comma (sample_of (retained_lines ?t)) (concat CANDIDATE_DELIMS) = Inr comma_dialect"
    by (simp add: sniff_comma_def)
  have 5: "delimiter comma_dialect = COMMA" "quotechar comma_dialect \<noteq> COMMA"
    by (simp_all add: comma_dialect_def COMMA_def DQUOTE_def)
  have 6: "\<forall>row\<in>set ?rows. row \<noteq> [] \<and> row \<noteq> [[]] \<and> length (join [COMMA] row) \<le> field_limit
                   \<and> (\<forall>cell\<in>set row. plain_cell COMMA comma_dialect cell)"
    by (simp add: plain_cell_def trimmed_def isspace_def is_linebreak_def field_limit_def
        comma_dialect_def COMMA_def DQUOTE_def)
  from write_then_parse_round_trip [of COMMA ?rows ?t sniff_comma comma_dialect, OF 1 2 3 4 5 6]
  have "parse_text_to_rows sniff_comma ?t = ?rows" .
  with 1 2 3 4 5 6 show ?thesis
    by (simp add: list_all_iff)
qed

text \<open>
  Claim C6 as stated fails: the table with the one row \<open>[" a", "b"]\<close> has no delimiter
  and no quote character in its cells and is written as \<open> a,b\<close>; there is no tab and the
  sniffer accepts the comma; the detector trims the whole text first and returns the row
  \<open>["a", "b"]\<close>, without the space.
\<close>

theorem leading_space_is_lost_counterexample:
  "list_all (\<lambda>cell. COMMA \<notin> set cell \<and> DQUOTE \<notin> set cell) [[32, 97], [98]]
   \<and> written_text [[[32, 97], [98]]] [COMMA] = Inr [32, 97, 44, 98, 13, 10]
   \<and> TAB \<notin> set (sample_of (retained_lines [32, 97, 44, 98, 13, 10]))
   \<and> parse_text_to_rows sniff_comma [32, 97, 44, 98, 13, 10] = [[[97], [98]]]"
proof -
  have w: "written_text [[[32, 97], [98]]] [COMMA] = Inr [32, 97, 44, 98, 13, 10]"
    by (simp add: written_text_spec spec_text_def spec_row_def spec_cell_def forces_quotes_def
        COMMA_def DQUOTE_def CR_def LF_def)
  have l: "retained_lines [32, 97, 44, 98, 13, 10] = [[97, 44, 98]]"
    by (simp add: lines_eval)
  have r: "csv_reader comma_dialect [[97, 44, 98]] = Inr [[[97], [98]]]"
    by (simp add: reader_eval)
  have c: "list_all (\<lambda>cell. COMMA \<notin> set cell \<and> DQUOTE \<notin> set cell) [[32, 97], [98]]"
    by (simp add: COMMA_def DQUOTE_def)
  have t: "TAB \<notin> set (sample_of (retained_lines [32, 97, 44, 98, 13, 10]))"
    by (simp add: l sample_of_def TAB_def)
  have p: "parse_text_to_rows sniff_comma [32, 97, 44, 98, 13, 10] = [[[97], [98]]]"
    by (simp add: parse_text_to_rows_def l sample_of_def sniffed_rows_def sniff_comma_def r
        TAB_def)
  from c w t p show ?thesis by blast
qed

end
